theory Spec2Isabelle
  imports Complex_Main "HOL-Library.Word" "HOL-Library.Monad_Syntax" "HOL-Library.Log_Nat"
begin

unbundle bit_operations_syntax

section \<open>Data model of \<open>hypercomplex.h\<close>\<close>

text \<open>
  The library targets AArch64 (the header names ARM64, the Makefile builds with
  \<open>-march=armv8-a\<close>), so \<open>size_t\<close> is a 64-bit unsigned word, \<open>uint32_t\<close> a 32-bit word
  and buffers are little-endian byte sequences. A \<open>float\<close> is kept as its IEEE-754
  binary32 bit pattern: the codec only stores, copies and classifies floats; key
  generation computes with them, in the single-precision arithmetic defined below.
\<close>

type_synonym byte = "8 word"
type_synonym size_t = "64 word"
type_synonym uint32_t = "32 word"
type_synonym uint64_t = "64 word"
type_synonym float32 = "32 word"

text \<open>\<open>typedef struct { float w, x, y, z; } quaternion_t;\<close>\<close>

record quaternion_t =
  q_w :: float32
  q_x :: float32
  q_y :: float32
  q_z :: float32

text \<open>The return codes of the header file.\<close>

definition HC_SUCCESS :: int where "HC_SUCCESS = 0"
definition HC_ERROR_NULL_PTR :: int where "HC_ERROR_NULL_PTR = - 1"
definition HC_ERROR_DIVIDE_ZERO :: int where "HC_ERROR_DIVIDE_ZERO = - 2"
definition HC_ERROR_INVALID_DATA :: int where "HC_ERROR_INVALID_DATA = - 3"

section \<open>Bytes in memory\<close>

text \<open>Little-endian storage of a word in \<open>n\<close> bytes, and the value read back from bytes.\<close>

fun word_to_bytes :: "nat \<Rightarrow> 'a::len word \<Rightarrow> byte list" where
  "word_to_bytes 0 v = []"
| "word_to_bytes (Suc n) v = ucast v # word_to_bytes n (drop_bit 8 v)"

fun bytes_to_word :: "byte list \<Rightarrow> 'a::len word" where
  "bytes_to_word [] = 0"
| "bytes_to_word (b # bs) = ucast b OR push_bit 8 (bytes_to_word bs)"

definition bytes_of_u32 :: "uint32_t \<Rightarrow> byte list" where
  "bytes_of_u32 v = word_to_bytes 4 v"

definition bytes_of_size :: "size_t \<Rightarrow> byte list" where
  "bytes_of_size v = word_to_bytes 8 v"

definition u32_of_bytes :: "byte list \<Rightarrow> uint32_t" where
  "u32_of_bytes bs = bytes_to_word bs"

definition size_of_bytes :: "byte list \<Rightarrow> size_t" where
  "size_of_bytes bs = bytes_to_word bs"

text \<open>A \<open>quaternion_t\<close> occupies 16 bytes: w, x, y, z in this order, no padding.\<close>

definition bytes_of_quaternion :: "quaternion_t \<Rightarrow> byte list" where
  "bytes_of_quaternion q =
     bytes_of_u32 (q_w q) @ bytes_of_u32 (q_x q) @ bytes_of_u32 (q_y q) @ bytes_of_u32 (q_z q)"

definition quaternion_of_bytes :: "byte list \<Rightarrow> quaternion_t" where
  "quaternion_of_bytes bs =
     \<lparr> q_w = u32_of_bytes (take 4 bs),
       q_x = u32_of_bytes (take 4 (drop 4 bs)),
       q_y = u32_of_bytes (take 4 (drop 8 bs)),
       q_z = u32_of_bytes (take 4 (drop 12 bs)) \<rparr>"

text \<open>
  A buffer is the list of the bytes allocated behind a pointer. Reading or writing past
  its end is undefined behaviour in C: \<open>load\<close> and \<open>store\<close> return \<open>None\<close> there, and so
  does every function of the model that runs into it.
\<close>

definition load :: "nat \<Rightarrow> nat \<Rightarrow> byte list \<Rightarrow> byte list option" where
  "load off n buf = (if off + n \<le> length buf then Some (take n (drop off buf)) else None)"

definition store :: "nat \<Rightarrow> byte list \<Rightarrow> byte list \<Rightarrow> byte list option" where
  "store off d buf =
     (if off + length d \<le> length buf
      then Some (take off buf @ d @ drop (off + length d) buf) else None)"

text \<open>
  Layout of \<open>hypercomplex_header_t\<close> under the AArch64 procedure call standard:
  \<open>magic\<close> at offset 0, four bytes of alignment padding, \<open>length\<close> at 8, \<open>key\<close> at 16,
  \<open>checksum\<close> at 32, four bytes of tail padding; \<open>sizeof\<close> is 40.
\<close>

definition header_size :: size_t where "header_size = 40"

definition off_magic :: nat where "off_magic = 0"
definition off_length :: nat where "off_length = 8"
definition off_key :: nat where "off_key = 16"
definition off_checksum :: nat where "off_checksum = 32"

section \<open>\<open>compute_checksum\<close>\<close>

text \<open>
  \<open>for (size_t i = 0; i < length; i++) checksum = (checksum << 1) ^ bytes[i];\<close>
  The loop, with its index and accumulator.
\<close>

function checksum_loop :: "byte list \<Rightarrow> size_t \<Rightarrow> size_t \<Rightarrow> uint32_t \<Rightarrow> uint32_t" where
  "checksum_loop bytes len i checksum =
     (if i < len
      then checksum_loop bytes len (i + 1) (push_bit 1 checksum XOR ucast (bytes ! unat i))
      else checksum)"
  by pat_completeness auto
termination
proof (relation "measure (\<lambda>(bytes, len, i, checksum). unat len - unat i)")
  show "wf (measure (\<lambda>(bytes, len, i, checksum). unat len - unat i))"
    by simp
next
  fix bytes :: "byte list" and len i :: size_t and checksum :: uint32_t
  assume lt: "i < len"
  then have "unat i < unat len"
    by (simp add: word_less_nat_alt)
  moreover have "unat len < 2 ^ LENGTH(64)"
    by (rule unsigned_less)
  ultimately have "unat i + unat (1 :: size_t) < 2 ^ LENGTH(64)"
    by simp
  then have "unat (i + 1) = unat i + unat (1 :: size_t)"
    by (simp only: unat_add_lem)
  with \<open>unat i < unat len\<close>
  show "((bytes, len, i + 1, push_bit 1 checksum XOR ucast (bytes ! unat i)),
      (bytes, len, i, checksum)) \<in> measure (\<lambda>(bytes, len, i, checksum). unat len - unat i)"
    by simp
qed

declare checksum_loop.simps [simp del]

definition compute_checksum :: "byte list \<Rightarrow> size_t \<Rightarrow> uint32_t" where
  "compute_checksum data len = checksum_loop data len 0 0"

text \<open>
  The digest in the words of the specification: a left fold from 0 of
  \<open>acc \<mapsto> (acc << 1) XOR byte\<close> in 32-bit arithmetic.
\<close>

definition checksum_fold :: "byte list \<Rightarrow> uint32_t" where
  "checksum_fold bs = foldl (\<lambda>acc b. push_bit 1 acc XOR ucast b) 0 bs"

section \<open>Quaternion helpers\<close>

text \<open>\<open>isfinite\<close> on a binary32 bit pattern: the exponent field is not all ones.\<close>

definition isfinite :: "float32 \<Rightarrow> bool" where
  "isfinite f \<longleftrightarrow> drop_bit 23 f AND 0xFF \<noteq> 0xFF"

definition quaternion_is_valid :: "quaternion_t option \<Rightarrow> bool" where
  "quaternion_is_valid q =
     (case q of
        None \<Rightarrow> False
      | Some v \<Rightarrow> isfinite (q_w v) \<and> isfinite (q_x v) \<and> isfinite (q_y v) \<and> isfinite (q_z v))"

text \<open>Negation of a binary32 value flips its sign bit.\<close>

definition fneg :: "float32 \<Rightarrow> float32" where
  "fneg f = f XOR 0x80000000"

text \<open>
  Modelled from the spec: \<open>quaternion_conjugate\<close> is an assembly routine that the
  C sources only declare. The specification gives Conjugate(a) = (w, -x, -y, -z); the
  codec calls it on two non-null locations, where it cannot fail.
\<close>

definition quaternion_conjugate :: "quaternion_t \<Rightarrow> quaternion_t" where
  "quaternion_conjugate q =
     \<lparr> q_w = q_w q, q_x = fneg (q_x q), q_y = fneg (q_y q), q_z = fneg (q_z q) \<rparr>"

section \<open>Single-precision arithmetic\<close>

text \<open>
  The fields of a binary32 bit pattern and the rational number a finite pattern stands
  for: sign bit 31, biased exponent in bits 30 to 23, fraction in bits 22 to 0. An
  exponent field of 0 is a subnormal number (or zero), the field 255 is an infinity or a
  NaN, which \<open>f32_value\<close> is not meant for.
\<close>

definition f32_exponent :: "float32 \<Rightarrow> int" where
  "f32_exponent f = uint (drop_bit 23 f AND 0xFF)"

definition f32_fraction :: "float32 \<Rightarrow> int" where
  "f32_fraction f = uint (f AND 0x7FFFFF)"

definition f32_value :: "float32 \<Rightarrow> rat" where
  "f32_value f =
     (if bit f 31 then - 1 else 1) *
     (if f32_exponent f = 0 then of_int (f32_fraction f) * 2 powi (- 149)
      else of_int (2 ^ 23 + f32_fraction f) * 2 powi (f32_exponent f - 150))"

text \<open>
  Rounding of an exact result to binary32 in the default mode of the target, round to
  nearest, ties to even. \<open>floor_log2 a\<close> is the exponent \<open>e\<close> with
  \<open>2^e \<le> a < 2^(e+1)\<close>; below \<open>2^-126\<close> the spacing is that of the subnormal range. The
  significand is rounded to an integer \<open>m\<close> of at most 24 bits, and the bit pattern is
  assembled by adding \<open>m\<close> to the exponent field, so that a carry out of the significand
  moves to the next exponent; what reaches the exponent field 255 is infinity. An exact
  zero is returned as \<open>+0\<close>, which is what round-to-nearest gives for a difference of
  equal numbers and for a zero numerator or factor of positive sign.
\<close>

definition floor_log2 :: "rat \<Rightarrow> int" where
  "floor_log2 a = (if 1 \<le> a then bitlen \<lfloor>a\<rfloor> - 1 else - bitlen (\<lceil>1 / a\<rceil> - 1))"

definition round_half_even :: "rat \<Rightarrow> int" where
  "round_half_even x =
     (let k = \<lfloor>x\<rfloor>; r = x - of_int k
      in if r < 1 / 2 \<or> (r = 1 / 2 \<and> even k) then k else k + 1)"

definition f32_round :: "rat \<Rightarrow> float32" where
  "f32_round x =
     (if x = 0 then 0
      else
        let a = \<bar>x\<bar>;
            e = max (floor_log2 a) (- 126);
            m = round_half_even (a * 2 powi (23 - e));
            bits = (e + 126) * 2 ^ 23 + m
        in word_of_int ((if x < 0 then 2 ^ 31 else 0)
             + (if 0x7F800000 \<le> bits then 0x7F800000 else bits)))"

text \<open>
  The operations that \<open>quaternion_generate_key\<close> uses, on finite operands: the conversion
  \<open>(float)\<close> of a \<open>uint64_t\<close>, and \<open>/\<close>, \<open>*\<close> and \<open>-\<close> on \<open>float\<close>. On AArch64 a \<open>float\<close>
  expression is evaluated in single precision, so each operation rounds its exact result
  once. The divisor of the one division in the source is the constant \<open>65535.0f\<close>.
\<close>

definition f32_of_uint64 :: "uint64_t \<Rightarrow> float32" where
  "f32_of_uint64 n = f32_round (of_int (uint n))"

definition f32_div :: "float32 \<Rightarrow> float32 \<Rightarrow> float32" where
  "f32_div a b = f32_round (f32_value a / f32_value b)"

definition f32_mul :: "float32 \<Rightarrow> float32 \<Rightarrow> float32" where
  "f32_mul a b = f32_round (f32_value a * f32_value b)"

definition f32_sub :: "float32 \<Rightarrow> float32 \<Rightarrow> float32" where
  "f32_sub a b = f32_round (f32_value a - f32_value b)"

text \<open>
  Modelled from the spec: \<open>quaternion_norm\<close> is an assembly routine that the C sources
  only declare. The specification gives Norm(a) = sqrt(w*w + x*x + y*y + z*z);
  \<open>quaternion_norm_sq\<close> is the exact value under the root, for finite components. A
  quaternion is zero-norm when it is 0.
\<close>

definition quaternion_norm_sq :: "quaternion_t \<Rightarrow> rat" where
  "quaternion_norm_sq q =
     (f32_value (q_w q))\<^sup>2 + (f32_value (q_x q))\<^sup>2 + (f32_value (q_y q))\<^sup>2
       + (f32_value (q_z q))\<^sup>2"

section \<open>\<open>quaternion_generate_key\<close>\<close>

text \<open>
  \<open>(float)(state & 0xFFFF) / 65535.0f * 2.0f - 1.0f\<close>, the expression that the source
  assigns to each of the four components: the low 16 bits of the generator state,
  converted, divided, doubled and shifted, left to right. The constants are
  \<open>65535.0f = 0x477FFF00\<close>, \<open>2.0f = 0x40000000\<close> and \<open>1.0f = 0x3F800000\<close>.
\<close>

definition key_component :: "uint64_t \<Rightarrow> float32" where
  "key_component state =
     f32_sub (f32_mul (f32_div (f32_of_uint64 (state AND 0xFFFF)) 0x477FFF00) 0x40000000)
       0x3F800000"

text \<open>
  The body of the function up to the call of \<open>quaternion_normalize\<close>: the linear
  congruential generator, in 64-bit wrap-around arithmetic, and the four raw components
  it leaves in \<open>*key\<close>.
\<close>

definition generate_key_draws :: "uint64_t \<Rightarrow> quaternion_t" where
  "generate_key_draws seed =
     (let state = seed;
          state = state * 1103515245 + 12345;
          kw = key_component state;
          state = state * 1103515245 + 12345;
          kx = key_component state;
          state = state * 1103515245 + 12345;
          ky = key_component state;
          state = state * 1103515245 + 12345;
          kz = key_component state
      in \<lparr> q_w = kw, q_x = kx, q_y = ky, q_z = kz \<rparr>)"

text \<open>
  The function returns \<open>void\<close>: all a caller observes is the content of \<open>*key\<close> after the
  call (\<open>None\<close> for a null pointer, where nothing is written). It ends with the statement
  \<open>quaternion_normalize(key, key);\<close>, whose return value is dropped.
  \<open>quaternion_normalize\<close> is an assembly routine that the C sources only declare; it is a
  parameter of the model: from the quaternion in the location to its return code and
  what it leaves in the location.
\<close>

definition quaternion_generate_key ::
  "(quaternion_t \<Rightarrow> int \<times> quaternion_t) \<Rightarrow> quaternion_t option \<Rightarrow> uint64_t \<Rightarrow>
   quaternion_t option" where
  "quaternion_generate_key quaternion_normalize key seed =
     (if key = None then None
      else Some (snd (quaternion_normalize (generate_key_draws seed))))"

section \<open>The container codec\<close>

text \<open>
  Every \<open>return\<close> of the two codec functions is one constructor of \<open>status\<close>, named after
  the condition its \<open>if\<close> tests; \<open>return_code\<close> is the \<open>int\<close> the C function returns
  there. \<open>TransformFailed r\<close> is the path \<open>return result\<close> with a non-zero \<open>result\<close> of
  \<open>hypercomplex_encrypt\<close>.
\<close>

datatype status =
    Success
  | NullPtr
  | InvalidKey
  | BufferTooSmall
  | Malformed
  | IntegrityMismatch
  | TransformFailed int

fun return_code :: "status \<Rightarrow> int" where
  "return_code Success = HC_SUCCESS"
| "return_code NullPtr = HC_ERROR_NULL_PTR"
| "return_code InvalidKey = HC_ERROR_INVALID_DATA"
| "return_code BufferTooSmall = HC_ERROR_INVALID_DATA"
| "return_code Malformed = HC_ERROR_INVALID_DATA"
| "return_code IntegrityMismatch = HC_ERROR_INVALID_DATA"
| "return_code (TransformFailed r) = r"

text \<open>
  \<open>hypercomplex_encrypt(input, key, output, length)\<close> is an assembly routine that the C
  sources only declare; the codec takes it as a parameter: from the \<open>length\<close> input bytes
  and the key to its return code and the bytes it leaves in the output. Both calls are
  in place (input and output are the same location).
\<close>

type_synonym transform = "byte list \<Rightarrow> quaternion_t \<Rightarrow> int \<times> byte list"

text \<open>
  A result is the status, the output buffer and the length out-parameter after the call;
  \<open>None\<close> is undefined behaviour (an access past the end of a buffer). Pointers are
  options, \<open>None\<close> being \<open>NULL\<close>. The input and the output buffer do not overlap.

  The statements are in the order of the source. In the encoder the header fields are
  stored one by one at their offsets, so the padding bytes of the header keep what the
  buffer held; \<open>compute_checksum\<close> and \<open>memcpy\<close> read the same \<open>len\<close> bytes of the plaintext,
  which is the one \<open>load\<close> named \<open>src\<close>. In the decoder each header field is read from the
  input buffer at the point where the source dereferences \<open>header\<close>.
\<close>

type_synonym codec_result = "(status \<times> byte list option \<times> size_t option) option"

definition hypercomplex_encrypt_data ::
  "transform \<Rightarrow> byte list option \<Rightarrow> size_t \<Rightarrow> quaternion_t option \<Rightarrow>
   byte list option \<Rightarrow> size_t option \<Rightarrow> codec_result" where
  "hypercomplex_encrypt_data hypercomplex_encrypt plaintext len key ciphertext cipher_length =
     (if plaintext = None \<or> key = None \<or> ciphertext = None \<or> cipher_length = None
      then Some (NullPtr, ciphertext, cipher_length)
      else if \<not> quaternion_is_valid key
      then Some (InvalidKey, ciphertext, cipher_length)
      else
        let padded_length = ((len + 15) div 16) * 16;
            total_size = header_size + padded_length
        in
          if the cipher_length < total_size
          then Some (BufferTooSmall, ciphertext, Some total_size)
          else do {
            b1 \<leftarrow> store off_magic (bytes_of_u32 0xDEADBEEF) (the ciphertext);
            b2 \<leftarrow> store off_length (bytes_of_size len) b1;
            b3 \<leftarrow> store off_key (bytes_of_quaternion (the key)) b2;
            src \<leftarrow> load 0 (unat len) (the plaintext);
            b4 \<leftarrow> store off_checksum (bytes_of_u32 (compute_checksum (the plaintext) len)) b3;
            b5 \<leftarrow> store (unat header_size) src b4;
            b6 \<leftarrow> (if padded_length > len
                   then store (unat header_size + unat len)
                          (replicate (unat (padded_length - len)) 0) b5
                   else Some b5);
            block \<leftarrow> load (unat header_size) (unat padded_length) b6;
            case hypercomplex_encrypt block (the key) of
              (result, out) \<Rightarrow> do {
                b7 \<leftarrow> store (unat header_size) out b6;
                if result = HC_SUCCESS
                then Some (Success, Some b7, Some total_size)
                else Some (TransformFailed result, Some b7, cipher_length)
              }
          })"

definition hypercomplex_decrypt_data ::
  "transform \<Rightarrow> byte list option \<Rightarrow> size_t \<Rightarrow> quaternion_t option \<Rightarrow>
   byte list option \<Rightarrow> size_t option \<Rightarrow> codec_result" where
  "hypercomplex_decrypt_data hypercomplex_encrypt ciphertext cipher_length key plaintext plain_length =
     (if ciphertext = None \<or> key = None \<or> plaintext = None \<or> plain_length = None
      then Some (NullPtr, plaintext, plain_length)
      else if cipher_length < header_size
      then Some (Malformed, plaintext, plain_length)
      else do {
        m \<leftarrow> load off_magic 4 (the ciphertext);
        if u32_of_bytes m \<noteq> 0xDEADBEEF
        then Some (Malformed, plaintext, plain_length)
        else do {
          lb \<leftarrow> load off_length 8 (the ciphertext);
          if the plain_length < size_of_bytes lb
          then Some (BufferTooSmall, plaintext, Some (size_of_bytes lb))
          else do {
            let data_size = cipher_length - header_size;
            encrypted_data \<leftarrow> load (unat header_size) (unat data_size) (the ciphertext);
            p1 \<leftarrow> store 0 encrypted_data (the plaintext);
            kb \<leftarrow> load off_key 16 (the ciphertext);
            let inv_key = quaternion_conjugate (quaternion_of_bytes kb);
            block \<leftarrow> load 0 (unat data_size) p1;
            case hypercomplex_encrypt block inv_key of
              (result, out) \<Rightarrow> do {
                p2 \<leftarrow> store 0 out p1;
                if result = HC_SUCCESS
                then do {
                  _ \<leftarrow> load 0 (unat (size_of_bytes lb)) p2;
                  cb \<leftarrow> load off_checksum 4 (the ciphertext);
                  if compute_checksum p2 (size_of_bytes lb) \<noteq> u32_of_bytes cb
                  then Some (IntegrityMismatch, Some p2, Some (size_of_bytes lb))
                  else Some (Success, Some p2, Some (size_of_bytes lb))
                }
                else Some (TransformFailed result, Some p2, plain_length)
              }
          }
        }
      })"

text \<open>The C functions proper: the \<open>int\<close> they return.\<close>

definition hypercomplex_encrypt_data_rc ::
  "transform \<Rightarrow> byte list option \<Rightarrow> size_t \<Rightarrow> quaternion_t option \<Rightarrow>
   byte list option \<Rightarrow> size_t option \<Rightarrow> int option" where
  "hypercomplex_encrypt_data_rc T plaintext len key ciphertext cipher_length =
     map_option (\<lambda>r. return_code (fst r))
       (hypercomplex_encrypt_data T plaintext len key ciphertext cipher_length)"

definition hypercomplex_decrypt_data_rc ::
  "transform \<Rightarrow> byte list option \<Rightarrow> size_t \<Rightarrow> quaternion_t option \<Rightarrow>
   byte list option \<Rightarrow> size_t option \<Rightarrow> int option" where
  "hypercomplex_decrypt_data_rc T ciphertext cipher_length key plaintext plain_length =
     map_option (\<lambda>r. return_code (fst r))
       (hypercomplex_decrypt_data T ciphertext cipher_length key plaintext plain_length)"

text \<open>
  The contract of the specification for the block transform at a key: on every block
  whose length is a multiple of 16 it succeeds with an output of the same length, and
  applying it again with the conjugate key gives the block back.
\<close>

definition transform_inverts :: "transform \<Rightarrow> quaternion_t \<Rightarrow> bool" where
  "transform_inverts T k \<longleftrightarrow>
     (\<forall>block. 16 dvd length block \<longrightarrow>
        (\<exists>out. T block k = (HC_SUCCESS, out) \<and> length out = length block
           \<and> T out (quaternion_conjugate k) = (HC_SUCCESS, block)))"

text \<open>
  Two concrete values for evaluating the codec: \<open>quaternion_identity\<close> of the header file,
  (1, 0, 0, 0) with \<open>1.0f = 0x3F800000\<close>, and the transform that copies its input, the
  simplest one that satisfies the contract.
\<close>

definition quaternion_identity :: quaternion_t where
  "quaternion_identity = \<lparr> q_w = 0x3F800000, q_x = 0, q_y = 0, q_z = 0 \<rparr>"

definition copy_transform :: transform where
  "copy_transform block k = (HC_SUCCESS, block)"

text \<open>
  The container that \<open>hypercomplex_encrypt_data\<close> writes for the one-byte plaintext
  \<open>0x41\<close> under \<open>quaternion_identity\<close> and \<open>copy_transform\<close> into a zeroed buffer of 56 bytes:
  magic, padding, length 1, the key, checksum \<open>0x41\<close>, padding, and the padded block.
\<close>

definition sample_container :: "byte list" where
  "sample_container =
     [0xEF, 0xBE, 0xAD, 0xDE, 0, 0, 0, 0,
      1, 0, 0, 0, 0, 0, 0, 0,
      0, 0, 0x80, 0x3F, 0, 0, 0, 0, 0, 0, 0, 0, 0, 0, 0, 0,
      0x41, 0, 0, 0, 0, 0, 0, 0,
      0x41, 0, 0, 0, 0, 0, 0, 0, 0, 0, 0, 0, 0, 0, 0, 0]"

text \<open>
  The padded length in the words of the specification: the smallest multiple of 16 that
  is at least the original length.
\<close>

definition padded16 :: "nat \<Rightarrow> nat" where
  "padded16 n = (LEAST m. 16 dvd m \<and> n \<le> m)"

section \<open>Bytes and words\<close>

lemma length_word_to_bytes [simp]: "length (word_to_bytes n v) = n"
  by (induction n arbitrary: v) auto

lemma bytes_to_word_to_bytes:
  "bytes_to_word (word_to_bytes n (v :: 'a::len word)) = (take_bit (8 * n) v :: 'a word)"
proof (induction n arbitrary: v)
  case 0
  show ?case by simp
next
  case (Suc n)
  show ?case
    apply (simp add: Suc)
    apply (rule bit_word_eqI)
    apply (auto simp add: bit_simps)
    done
qed

lemma bit_bytes_to_word_bound:
  "bit (bytes_to_word bs :: 'a::len word) n \<Longrightarrow> n < 8 * length bs"
proof (induction bs arbitrary: n)
  case Nil
  then show ?case by simp
next
  case (Cons b bs)
  from Cons.prems have "bit b n \<or> (8 \<le> n \<and> bit (bytes_to_word bs :: 'a word) (n - 8))"
    by (auto simp add: bit_simps)
  then show ?case
  proof
    assume "bit b n"
    then have "n < 8" by (auto dest: bit_imp_le_length)
    then show ?thesis by simp
  next
    assume "8 \<le> n \<and> bit (bytes_to_word bs :: 'a word) (n - 8)"
    then have "8 \<le> n" and "n - 8 < 8 * length bs" using Cons.IH by auto
    then show ?thesis by simp
  qed
qed

lemma word_to_bytes_to_word:
  "8 * length bs \<le> LENGTH('a) \<Longrightarrow>
   word_to_bytes (length bs) (bytes_to_word bs :: 'a::len word) = bs"
proof (induction bs)
  case Nil
  show ?case by simp
next
  case (Cons b bs)
  have low: "ucast (ucast b OR push_bit 8 (bytes_to_word bs :: 'a word) :: 'a word) = b"
    apply (rule bit_word_eqI)
    using Cons.prems
    apply (auto simp add: bit_simps)
    done
  have high: "drop_bit 8 (ucast b OR push_bit 8 (bytes_to_word bs :: 'a word) :: 'a word)
      = bytes_to_word bs"
    apply (rule bit_word_eqI)
    using Cons.prems
    apply (auto simp add: bit_simps dest: bit_imp_le_length bit_bytes_to_word_bound)
    done
  from Cons.prems have "8 * length bs \<le> LENGTH('a)" by simp
  then have "word_to_bytes (length bs) (bytes_to_word bs :: 'a word) = bs" by (rule Cons.IH)
  then show ?case
    by (simp only: length_Cons word_to_bytes.simps bytes_to_word.simps low high)
qed

lemma length_bytes_of_u32 [simp]: "length (bytes_of_u32 v) = 4"
  by (simp add: bytes_of_u32_def)

lemma length_bytes_of_size [simp]: "length (bytes_of_size v) = 8"
  by (simp add: bytes_of_size_def)

lemma length_bytes_of_quaternion [simp]: "length (bytes_of_quaternion q) = 16"
  by (simp add: bytes_of_quaternion_def)

lemma u32_of_bytes_of_u32 [simp]: "u32_of_bytes (bytes_of_u32 v) = v"
  by (simp add: u32_of_bytes_def bytes_of_u32_def bytes_to_word_to_bytes take_bit_word_eq_self)

lemma size_of_bytes_of_size [simp]: "size_of_bytes (bytes_of_size v) = v"
  by (simp add: size_of_bytes_def bytes_of_size_def bytes_to_word_to_bytes take_bit_word_eq_self)

lemma quaternion_of_bytes_of_quaternion [simp]:
  "quaternion_of_bytes (bytes_of_quaternion q) = q"
  by (simp add: quaternion_of_bytes_def bytes_of_quaternion_def)

lemma u32_of_bytes_inj:
  assumes "length a = 4" and "length b = 4" and "u32_of_bytes a = u32_of_bytes b"
  shows "a = b"
proof -
  have la: "8 * length a \<le> LENGTH(32)" and lb: "8 * length b \<le> LENGTH(32)"
    using assms(1,2) by simp_all
  have "word_to_bytes (length a) (bytes_to_word a :: uint32_t) = a"
    using la by (rule word_to_bytes_to_word)
  moreover have "word_to_bytes (length b) (bytes_to_word b :: uint32_t) = b"
    using lb by (rule word_to_bytes_to_word)
  moreover have "bytes_to_word a = (bytes_to_word b :: uint32_t)"
    using assms(3) by (simp only: u32_of_bytes_def)
  moreover have "length a = length b"
    using assms(1,2) by (simp only:)
  ultimately show ?thesis
    by metis
qed

lemma unat_succ_below:
  fixes i len :: size_t
  assumes "i < len"
  shows "unat (i + 1) = Suc (unat i)"
proof -
  from assms have "unat i < unat len" by (simp add: word_less_nat_alt)
  moreover have "unat len < 2 ^ LENGTH(64)" by (rule unsigned_less)
  ultimately have "unat i + unat (1 :: size_t) < 2 ^ LENGTH(64)" by simp
  then have "unat (i + 1) = unat i + unat (1 :: size_t)" by (simp only: unat_add_lem)
  then show ?thesis by simp
qed

lemma checksum_loop_fold:
  "i \<le> len \<Longrightarrow> unat len \<le> length bytes \<Longrightarrow>
   checksum_loop bytes len i acc =
     foldl (\<lambda>acc b. push_bit 1 acc XOR ucast b) acc (take (unat len - unat i) (drop (unat i) bytes))"
proof (induction bytes len i acc rule: checksum_loop.induct)
  case (1 bytes len i acc)
  show ?case
  proof (cases "i < len")
    case True
    then have suc: "unat (i + 1) = Suc (unat i)" by (rule unat_succ_below)
    from True have lt: "unat i < unat len" by (simp add: word_less_nat_alt)
    then have le': "i + 1 \<le> len" using suc by (simp add: word_le_nat_alt)
    from lt "1.prems" have inb: "unat i < length bytes" by simp
    have split: "take (unat len - unat i) (drop (unat i) bytes)
        = bytes ! unat i # take (unat len - Suc (unat i)) (drop (Suc (unat i)) bytes)"
      using lt inb
      by (metis Cons_nth_drop_Suc Suc_diff_Suc take_Suc_Cons)
    have "checksum_loop bytes len i acc
        = checksum_loop bytes len (i + 1) (push_bit 1 acc XOR ucast (bytes ! unat i))"
      using True by (subst checksum_loop.simps) simp
    also have "\<dots> = foldl (\<lambda>acc b. push_bit 1 acc XOR ucast b)
        (push_bit 1 acc XOR ucast (bytes ! unat i))
        (take (unat len - unat (i + 1)) (drop (unat (i + 1)) bytes))"
      using "1.IH" [OF True le' "1.prems"(2)] .
    finally show ?thesis by (simp add: split suc)
  next
    case False
    with "1.prems" have "i = len" by simp
    then show ?thesis by (subst checksum_loop.simps) simp
  qed
qed

lemma compute_checksum_fold:
  "unat len \<le> length bytes \<Longrightarrow> compute_checksum bytes len = checksum_fold (take (unat len) bytes)"
  by (simp add: compute_checksum_def checksum_fold_def checksum_loop_fold)

section \<open>Sizes\<close>

lemma round_up_16_ge: "(n :: nat) \<le> (n + 15) div 16 * 16"
proof -
  have "(n + 15) div 16 * 16 + (n + 15) mod 16 = n + 15"
    by (rule div_mult_mod_eq)
  moreover have "(n + 15) mod 16 < 16"
    by (rule mod_less_divisor) simp
  ultimately show ?thesis
    by linarith
qed

lemma round_up_16_least:
  assumes "16 dvd (m :: nat)" and "n \<le> m"
  shows "(n + 15) div 16 * 16 \<le> m"
proof -
  from assms(1) obtain k where m: "m = 16 * k" ..
  have "(n + 15) div 16 \<le> (16 * k + 15) div 16"
    using assms(2) unfolding m by (intro div_le_mono) linarith
  also have "(16 * k + 15) div 16 = k"
    by simp
  finally show ?thesis
    unfolding m by simp
qed

lemma padded16_eq: "padded16 n = (n + 15) div 16 * 16"
  unfolding padded16_def
proof (rule Least_equality)
  show "16 dvd (n + 15) div 16 * 16 \<and> n \<le> (n + 15) div 16 * 16"
    using round_up_16_ge [of n] by simp
next
  fix m
  assume "16 dvd m \<and> n \<le> m"
  then show "(n + 15) div 16 * 16 \<le> m"
    using round_up_16_least by blast
qed

lemma padded16_ge: "n \<le> padded16 n"
  unfolding padded16_eq by (rule round_up_16_ge)

lemma unat_padded_length:
  fixes len :: size_t
  assumes "40 + padded16 (unat len) < 2 ^ 64"
  shows "unat (((len + 15) div 16) * 16) = padded16 (unat len)"
proof -
  have ge: "unat len \<le> padded16 (unat len)" by (rule padded16_ge)
  have "unat len + unat (15 :: size_t) < 2 ^ LENGTH(64)"
    using assms ge by simp
  then have a: "unat (len + 15) = unat len + 15"
    by (simp add: unat_add_lem [THEN iffD1])
  have d: "unat ((len + 15) div 16) = (unat len + 15) div 16"
    by (simp add: unat_div a)
  have "unat ((len + 15) div 16) * unat (16 :: size_t) < 2 ^ LENGTH(64)"
    using assms by (simp add: d padded16_eq)
  then have "unat (((len + 15) div 16) * 16) = unat ((len + 15) div 16) * unat (16 :: size_t)"
    by (simp only: unat_mult_lem)
  then show ?thesis
    by (simp add: d padded16_eq)
qed

lemma unat_total_size:
  fixes len :: size_t
  assumes "40 + padded16 (unat len) < 2 ^ 64"
  shows "unat (header_size + ((len + 15) div 16) * 16) = 40 + padded16 (unat len)"
proof -
  have p: "unat (((len + 15) div 16) * 16) = padded16 (unat len)"
    using assms by (rule unat_padded_length)
  have "unat header_size + unat (((len + 15) div 16) * 16) < 2 ^ LENGTH(64)"
    using assms by (simp add: p header_size_def)
  then have "unat (header_size + ((len + 15) div 16) * 16)
      = unat header_size + unat (((len + 15) div 16) * 16)"
    by (simp only: unat_add_lem)
  then show ?thesis
    by (simp add: p header_size_def)
qed

section \<open>Buffers and the container layout\<close>

lemma store_replace:
  "length a = off \<Longrightarrow> length d = length d' \<Longrightarrow> store off d (a @ d' @ r) = Some (a @ d @ r)"
  by (simp add: store_def)

lemma store_readback: "store off d buf = Some buf' \<Longrightarrow> take (length d) (drop off buf') = d"
  by (auto simp add: store_def split: if_splits)

lemma store_length: "store off d buf = Some buf' \<Longrightarrow> length buf' = length buf"
  by (auto simp add: store_def split: if_splits)

lemma load_segment:
  "length a = off \<Longrightarrow> length d = n \<Longrightarrow> load off n (a @ d @ r) = Some d"
  by (simp add: load_def)

lemma drop_split: "drop a xs = take n (drop a xs) @ drop (a + n) xs"
  by (metis append_take_drop_id drop_drop add.commute)

lemma buffer_segments:
  assumes "40 + p \<le> length (buf :: byte list)"
  obtains s0 g1 s2 s3 s4 g2 region rest where
    "buf = s0 @ g1 @ s2 @ s3 @ s4 @ g2 @ region @ rest"
    "length s0 = 4" "length g1 = 4" "length s2 = 8" "length s3 = 16" "length s4 = 4"
    "length g2 = 4" "length region = p"
    "s0 = take 4 buf" "s2 = take 8 (drop 8 buf)" "s3 = take 16 (drop 16 buf)"
    "s4 = take 4 (drop 32 buf)" "region = take p (drop 40 buf)"
proof
  show "buf = take 4 buf @ take 4 (drop 4 buf) @ take 8 (drop 8 buf) @ take 16 (drop 16 buf)
      @ take 4 (drop 32 buf) @ take 4 (drop 36 buf) @ take p (drop 40 buf) @ drop (40 + p) buf"
    using drop_split [of 0 buf 4] drop_split [of 4 buf 4] drop_split [of 8 buf 8]
      drop_split [of 16 buf 16] drop_split [of 32 buf 4] drop_split [of 36 buf 4]
      drop_split [of 40 buf p]
    by simp
  show "length (take 4 buf) = 4" "length (take 4 (drop 4 buf)) = 4"
    "length (take 8 (drop 8 buf)) = 8" "length (take 16 (drop 16 buf)) = 16"
    "length (take 4 (drop 32 buf)) = 4" "length (take 4 (drop 36 buf)) = 4"
    "length (take p (drop 40 buf)) = p"
    using assms by simp_all
qed simp_all

lemma encrypt_data_run:
  fixes len cap :: size_t
  assumes valid: "quaternion_is_valid (Some k)"
    and fits: "40 + padded16 (unat len) < 2 ^ 64"
    and cap: "40 + padded16 (unat len) \<le> unat cap"
    and src: "unat len \<le> length pt"
    and lens: "length s0 = 4" "length g1 = 4" "length s2 = 8" "length s3 = 16" "length s4 = 4"
      "length g2 = 4" "length region = padded16 (unat len)"
  shows "hypercomplex_encrypt_data T (Some pt) len (Some k)
      (Some (s0 @ g1 @ s2 @ s3 @ s4 @ g2 @ region @ rest)) (Some cap) =
    (case T (take (unat len) pt @ replicate (padded16 (unat len) - unat len) 0) k of
       (r, out) \<Rightarrow>
         store 40 out
           (bytes_of_u32 0xDEADBEEF @ g1 @ bytes_of_size len @ bytes_of_quaternion k
            @ bytes_of_u32 (compute_checksum pt len) @ g2
            @ take (unat len) pt @ replicate (padded16 (unat len) - unat len) 0 @ rest)
         \<bind> (\<lambda>b7. if r = HC_SUCCESS
                   then Some (Success, Some b7, Some (header_size + ((len + 15) div 16) * 16))
                   else Some (TransformFailed r, Some b7, Some cap)))"
proof -
  let ?P = "padded16 (unat len)"
  let ?M = "bytes_of_u32 0xDEADBEEF"
  let ?L = "bytes_of_size len"
  let ?K = "bytes_of_quaternion k"
  let ?C = "bytes_of_u32 (compute_checksum pt len)"
  let ?src = "take (unat len) pt"
  let ?zeros = "replicate (?P - unat len) (0 :: byte)"
  have P: "unat (((len + 15) div 16) * 16) = ?P"
    using fits by (rule unat_padded_length)
  have tot: "unat (header_size + ((len + 15) div 16) * 16) = 40 + ?P"
    using fits by (rule unat_total_size)
  have ge: "unat len \<le> ?P" by (rule padded16_ge)
  have nlt: "\<not> cap < header_size + ((len + 15) div 16) * 16"
    using cap by (simp add: word_less_nat_alt tot)
  have pad: "(len < ((len + 15) div 16) * 16) = (unat len < ?P)"
    by (simp add: word_less_nat_alt P)
  have sub: "unat (((len + 15) div 16) * 16 - len) = ?P - unat len"
    using ge by (simp add: unat_sub word_le_nat_alt P)
  have hs: "unat header_size = 40" by (simp add: header_size_def)
  have lsrc: "length ?src = unat len" using src by simp
  obtain r1 r2 where region: "region = r1 @ r2" and r1: "length r1 = unat len"
    and r2: "length r2 = ?P - unat len"
    using lens(7) ge by (metis append_take_drop_id length_drop length_take min.absorb2)
  have b1: "store off_magic ?M (s0 @ g1 @ s2 @ s3 @ s4 @ g2 @ region @ rest)
      = Some (?M @ g1 @ s2 @ s3 @ s4 @ g2 @ region @ rest)"
    using store_replace [of "[]" 0 ?M s0] lens by (simp add: off_magic_def)
  have b2: "store off_length ?L (?M @ g1 @ s2 @ s3 @ s4 @ g2 @ region @ rest)
      = Some (?M @ g1 @ ?L @ s3 @ s4 @ g2 @ region @ rest)"
    using store_replace [of "?M @ g1" 8 ?L s2] lens by (simp add: off_length_def)
  have b3: "store off_key ?K (?M @ g1 @ ?L @ s3 @ s4 @ g2 @ region @ rest)
      = Some (?M @ g1 @ ?L @ ?K @ s4 @ g2 @ region @ rest)"
    using store_replace [of "?M @ g1 @ ?L" 16 ?K s3] lens by (simp add: off_key_def)
  have ld: "load 0 (unat len) pt = Some ?src"
    using src by (simp add: load_def)
  have b4: "store off_checksum ?C (?M @ g1 @ ?L @ ?K @ s4 @ g2 @ region @ rest)
      = Some (?M @ g1 @ ?L @ ?K @ ?C @ g2 @ region @ rest)"
    using store_replace [of "?M @ g1 @ ?L @ ?K" 32 ?C s4] lens by (simp add: off_checksum_def)
  have b5: "store 40 ?src (?M @ g1 @ ?L @ ?K @ ?C @ g2 @ region @ rest)
      = Some (?M @ g1 @ ?L @ ?K @ ?C @ g2 @ ?src @ r2 @ rest)"
    using store_replace [of "?M @ g1 @ ?L @ ?K @ ?C @ g2" 40 ?src r1 "r2 @ rest"] lens lsrc r1
    by (simp add: region)
  have b6: "store (40 + unat len) ?zeros (?M @ g1 @ ?L @ ?K @ ?C @ g2 @ ?src @ r2 @ rest)
      = Some (?M @ g1 @ ?L @ ?K @ ?C @ g2 @ ?src @ ?zeros @ rest)"
    using store_replace [of "?M @ g1 @ ?L @ ?K @ ?C @ g2 @ ?src" "40 + unat len" ?zeros r2 rest]
      lens lsrc r2
    by simp
  have r2_nil: "\<not> unat len < ?P \<Longrightarrow> r2 = [] \<and> ?zeros = []"
    using r2 by simp
  have blk: "load 40 ?P (?M @ g1 @ ?L @ ?K @ ?C @ g2 @ ?src @ ?zeros @ rest)
      = Some (?src @ ?zeros)"
    using load_segment [of "?M @ g1 @ ?L @ ?K @ ?C @ g2" 40 "?src @ ?zeros" ?P rest] lens lsrc ge
    by simp
  show ?thesis
  proof (cases "unat len < ?P")
    case True
    then show ?thesis
      unfolding hypercomplex_encrypt_data_def
      by (simp add: valid nlt pad sub hs P b1 b2 b3 ld b4 b5 b6 blk Let_def)
  next
    case False
    with r2_nil have "r2 = []" and "?zeros = []" by simp_all
    with False show ?thesis
      unfolding hypercomplex_encrypt_data_def
      using b5 blk
      by (simp add: valid nlt pad sub hs P b1 b2 b3 ld b4 Let_def)
  qed
qed

lemma encrypt_data_layout:
  fixes len cap :: size_t
  assumes valid: "quaternion_is_valid (Some k)"
    and fits: "40 + padded16 (unat len) < 2 ^ 64"
    and cap: "40 + padded16 (unat len) \<le> unat cap"
    and src: "unat len \<le> length pt"
    and lens: "length s0 = 4" "length g1 = 4" "length s2 = 8" "length s3 = 16" "length s4 = 4"
      "length g2 = 4" "length region = padded16 (unat len)"
    and T: "T (take (unat len) pt @ replicate (padded16 (unat len) - unat len) 0) k = (r, out)"
    and out: "length out = padded16 (unat len)"
  shows "hypercomplex_encrypt_data T (Some pt) len (Some k)
      (Some (s0 @ g1 @ s2 @ s3 @ s4 @ g2 @ region @ rest)) (Some cap) =
    Some (if r = HC_SUCCESS then Success else TransformFailed r,
      Some (bytes_of_u32 0xDEADBEEF @ g1 @ bytes_of_size len @ bytes_of_quaternion k
            @ bytes_of_u32 (compute_checksum pt len) @ g2 @ out @ rest),
      Some (if r = HC_SUCCESS then header_size + ((len + 15) div 16) * 16 else cap))"
proof -
  let ?H = "bytes_of_u32 0xDEADBEEF @ g1 @ bytes_of_size len @ bytes_of_quaternion k
            @ bytes_of_u32 (compute_checksum pt len) @ g2"
  let ?block = "take (unat len) pt @ replicate (padded16 (unat len) - unat len) (0 :: byte)"
  have "unat len \<le> padded16 (unat len)"
    by (rule padded16_ge)
  then have "length ?block = length out"
    using out src by simp
  moreover have "length ?H = 40"
    using lens by simp
  ultimately have "store 40 out (?H @ ?block @ rest) = Some (?H @ out @ rest)"
    by (intro store_replace) simp_all
  then show ?thesis
    using encrypt_data_run [where T = T and k = k and len = len and cap = cap and pt = pt
        and ?s0.0 = s0 and ?g1.0 = g1 and ?s2.0 = s2 and ?s3.0 = s3 and ?s4.0 = s4
        and ?g2.0 = g2 and region = region and rest = rest]
      valid fits cap src lens T
    by simp
qed

lemma decrypt_data_layout:
  fixes cl pl :: size_t
  assumes lens: "length m = 4" "length g1 = 4" "length lb = 8" "length kb = 16"
      "length cb = 4" "length g2 = 4"
    and cl: "unat cl = 40 + length payload"
    and magic: "u32_of_bytes m = 0xDEADBEEF"
    and cap: "size_of_bytes lb \<le> pl"
    and room: "length payload \<le> length p"
    and hl: "unat (size_of_bytes lb) \<le> length p"
    and T: "T payload (quaternion_conjugate (quaternion_of_bytes kb)) = (r, out)"
    and out: "length out = length payload"
  shows "hypercomplex_decrypt_data T (Some (m @ g1 @ lb @ kb @ cb @ g2 @ payload @ rest)) cl
      (Some k) (Some p) (Some pl) =
    Some (if r = HC_SUCCESS
          then (if compute_checksum (out @ drop (length payload) p) (size_of_bytes lb)
                    \<noteq> u32_of_bytes cb
                then IntegrityMismatch else Success,
                Some (out @ drop (length payload) p), Some (size_of_bytes lb))
          else (TransformFailed r, Some (out @ drop (length payload) p), Some pl))"
proof -
  let ?c = "m @ g1 @ lb @ kb @ cb @ g2 @ payload @ rest"
  let ?n = "length payload"
  have hs: "unat header_size = 40" by (simp add: header_size_def)
  have ge: "\<not> cl < header_size"
    using cl by (simp add: word_less_nat_alt hs)
  then have ds: "unat (cl - header_size) = ?n"
    using cl by (simp add: unat_sub hs)
  have ncap: "\<not> pl < size_of_bytes lb"
    using cap by simp
  have l1: "load off_magic 4 ?c = Some m"
    using load_segment [of "[]" 0 m 4] lens by (simp add: off_magic_def)
  have l2: "load off_length 8 ?c = Some lb"
    using load_segment [of "m @ g1" 8 lb 8] lens by (simp add: off_length_def)
  have l3: "load 40 ?n ?c = Some payload"
    using load_segment [of "m @ g1 @ lb @ kb @ cb @ g2" 40 payload ?n rest] lens by simp
  have l4: "load off_key 16 ?c = Some kb"
    using load_segment [of "m @ g1 @ lb" 16 kb 16] lens by (simp add: off_key_def)
  have l5: "load off_checksum 4 ?c = Some cb"
    using load_segment [of "m @ g1 @ lb @ kb" 32 cb 4] lens by (simp add: off_checksum_def)
  have p1: "store 0 payload p = Some (payload @ drop ?n p)"
    using room by (simp add: store_def)
  have blk: "load 0 ?n (payload @ drop ?n p) = Some payload"
    by (simp add: load_def)
  have p2: "store 0 out (payload @ drop ?n p) = Some (out @ drop ?n p)"
    using out by (simp add: store_def)
  have rd: "load 0 (unat (size_of_bytes lb)) (out @ drop ?n p)
      = Some (take (unat (size_of_bytes lb)) (out @ drop ?n p))"
    using hl out room by (simp add: load_def)
  show ?thesis
    unfolding hypercomplex_decrypt_data_def
    by (simp add: ge hs ds ncap magic l1 l2 l3 l4 l5 p1 blk T p2 rd Let_def)
qed

lemma copy_transform_inverts: "transform_inverts copy_transform k"
  by (simp add: transform_inverts_def copy_transform_def)

lemma quaternion_identity_valid: "quaternion_is_valid (Some quaternion_identity)"
  by (simp add: quaternion_is_valid_def quaternion_identity_def isfinite_def)

lemma encrypt_data_too_small:
  assumes "quaternion_is_valid (Some k)"
    and "cap < header_size + ((len + 15) div 16) * 16"
  shows "hypercomplex_encrypt_data T (Some pt) len (Some k) (Some buf) (Some cap)
    = Some (BufferTooSmall, Some buf, Some (header_size + ((len + 15) div 16) * 16))"
  using assms by (simp add: hypercomplex_encrypt_data_def Let_def)

lemma encrypt_data_success_bounds:
  fixes len cap :: size_t
  assumes enc: "hypercomplex_encrypt_data T (Some pt) len (Some k) (Some buf) (Some cap)
      = Some (Success, c, n)"
    and fits: "40 + padded16 (unat len) < 2 ^ 64"
  shows "quaternion_is_valid (Some k) \<and> 40 + padded16 (unat len) \<le> unat cap
    \<and> unat len \<le> length pt \<and> 40 + padded16 (unat len) \<le> length buf"
proof -
  let ?P = "padded16 (unat len)"
  let ?total = "header_size + ((len + 15) div 16) * 16"
  have P: "unat (((len + 15) div 16) * 16) = ?P"
    using fits by (rule unat_padded_length)
  have tot: "unat ?total = 40 + ?P"
    using fits by (rule unat_total_size)
  have hs: "unat header_size = 40" by (simp add: header_size_def)
  have valid: "quaternion_is_valid (Some k)"
    using enc by (auto simp add: hypercomplex_encrypt_data_def split: if_splits)
  have nlt: "\<not> cap < ?total"
    using enc valid by (auto simp add: hypercomplex_encrypt_data_def Let_def split: if_splits)
  then have cap: "40 + ?P \<le> unat cap"
    by (simp add: word_less_nat_alt tot)
  from enc valid nlt obtain b1 b2 b3 src b4 b5 b6 block where
    s1: "store off_magic (bytes_of_u32 0xDEADBEEF) buf = Some b1"
    and s2: "store off_length (bytes_of_size len) b1 = Some b2"
    and s3: "store off_key (bytes_of_quaternion k) b2 = Some b3"
    and ld: "load 0 (unat len) pt = Some src"
    and s4: "store off_checksum (bytes_of_u32 (compute_checksum pt len)) b3 = Some b4"
    and s5: "store 40 src b4 = Some b5"
    and s6: "(if len < ((len + 15) div 16) * 16
              then store (40 + unat len) (replicate (unat (((len + 15) div 16) * 16 - len)) 0) b5
              else Some b5) = Some b6"
    and lb: "load 40 ?P b6 = Some block"
    by (auto simp add: hypercomplex_encrypt_data_def Let_def hs P split: if_splits bind_splits)
  have l6: "length b6 = length buf"
    using s1 s2 s3 s4 s5 s6 by (auto dest!: store_length split: if_splits)
  have room: "40 + ?P \<le> length buf"
    using lb l6 by (auto simp add: load_def split: if_splits)
  have src: "unat len \<le> length pt"
    using ld by (auto simp add: load_def split: if_splits)
  show ?thesis
    using valid cap src room by simp
qed

lemma decrypt_data_bad_header:
  assumes "cl < header_size \<or> (4 \<le> length c \<and> u32_of_bytes (take 4 c) \<noteq> 0xDEADBEEF)"
  shows "hypercomplex_decrypt_data T (Some c) cl (Some k) (Some p) (Some pl)
    = Some (Malformed, Some p, Some pl)"
  using assms
  by (auto simp add: hypercomplex_decrypt_data_def load_def off_magic_def)

lemma list_update_differs: "i < length xs \<Longrightarrow> v \<noteq> xs ! i \<Longrightarrow> xs[i := v] \<noteq> xs"
  by (metis nth_list_update_eq)

lemma update_segment:
  assumes "length a = off" and "off \<le> i" and "i < off + length d"
  shows "(a @ d @ r)[i := v] = a @ d[i - off := v] @ r"
proof -
  from assms have "\<not> i < length a" and "i - length a < length d"
    by linarith+
  then show ?thesis
    using assms(1) by (simp add: list_update_append)
qed

lemma nth_segment:
  assumes "length a = off" and "off \<le> i" and "i < off + length d"
  shows "(a @ d @ r) ! i = d ! (i - off)"
proof -
  from assms have "\<not> i < length a" and "i - length a < length d"
    by linarith+
  then show ?thesis
    using assms(1) by (simp add: nth_append)
qed

section \<open>Rounding to single precision\<close>

text \<open>
  Facts about \<open>f32_round\<close>: a number in the normal range is rounded to a significand of
  24 bits at its own exponent, and a number that has such a significand is left as it
  is. They give the bounds on the components of a generated key: the conversion of the
  masked state and the doubling are exact, the division is off by at most \<open>2^-24\<close>, and
  \<open>2 n - 65535\<close> is odd, so the final difference never comes near zero.
\<close>

lemma two_powi_less_iff: "(2::rat) powi a < 2 powi b \<longleftrightarrow> a < b"
proof
  assume lt: "(2::rat) powi a < 2 powi b"
  show "a < b"
  proof (rule ccontr)
    assume "\<not> a < b"
    then have "b \<le> a" by simp
    then have "(2::rat) powi b \<le> 2 powi a" by (intro power_int_increasing) simp_all
    with lt show False by simp
  qed
next
  assume "a < b"
  then show "(2::rat) powi a < 2 powi b" by (intro power_int_strict_increasing) simp_all
qed

lemma two_powi_le_iff: "(2::rat) powi a \<le> 2 powi b \<longleftrightarrow> a \<le> b"
  using two_powi_less_iff [of b a] by (simp add: linorder_not_less [symmetric])

lemma floor_log2_bounds:
  assumes "0 < a"
  shows "2 powi (floor_log2 a) \<le> a" and "a < 2 powi (floor_log2 a + 1)"
proof -
  show "2 powi (floor_log2 a) \<le> a"
  proof (cases "1 \<le> a")
    case True
    then have pos: "0 < \<lfloor>a\<rfloor>" by simp
    have b: "0 \<le> bitlen \<lfloor>a\<rfloor> - 1" using pos by (simp add: bitlen_alt_def)
    have "2 ^ nat (bitlen \<lfloor>a\<rfloor> - 1) \<le> \<lfloor>a\<rfloor>" using bitlen_bounds [OF pos] by simp
    then have "of_int (2 ^ nat (bitlen \<lfloor>a\<rfloor> - 1)) \<le> a"
      by (simp only: le_floor_iff)
    then show ?thesis using True b by (simp add: floor_log2_def power_int_nonneg_exp)
  next
    case False
    with assms have y: "1 < 1 / a" by simp
    let ?c = "bitlen (\<lceil>1 / a\<rceil> - 1)"
    have pos: "0 < \<lceil>1 / a\<rceil> - 1" using y by (simp add: less_ceiling_iff)
    have "\<lceil>1 / a\<rceil> - 1 < 2 ^ nat ?c" using bitlen_bounds [OF pos] by simp
    then have "\<lceil>1 / a\<rceil> \<le> 2 ^ nat ?c" by simp
    then have "1 / a \<le> of_int (2 ^ nat ?c)" by (simp only: ceiling_le_iff)
    then have "1 / a \<le> 2 ^ nat ?c" by simp
    then have "1 / 2 ^ nat ?c \<le> a" using assms
      by (simp add: field_simps)
    moreover have "(2::rat) powi (- ?c) = 1 / 2 ^ nat ?c"
      using bitlen_nonneg [of "\<lceil>1 / a\<rceil> - 1"]
      by (simp add: power_int_minus_divide power_int_nonneg_exp)
    ultimately show ?thesis using False by (simp add: floor_log2_def)
  qed
  show "a < 2 powi (floor_log2 a + 1)"
  proof (cases "1 \<le> a")
    case True
    then have pos: "0 < \<lfloor>a\<rfloor>" by simp
    have b: "0 \<le> bitlen \<lfloor>a\<rfloor>" by (rule bitlen_nonneg)
    have "\<lfloor>a\<rfloor> < 2 ^ nat (bitlen \<lfloor>a\<rfloor>)" using bitlen_bounds [OF pos] by simp
    then have "a < of_int (2 ^ nat (bitlen \<lfloor>a\<rfloor>))" by (simp only: floor_less_iff)
    then have "a < 2 ^ nat (bitlen \<lfloor>a\<rfloor>)" by simp
    then show ?thesis using True b by (simp add: floor_log2_def power_int_nonneg_exp)
  next
    case False
    with assms have y: "1 < 1 / a" by simp
    let ?c = "bitlen (\<lceil>1 / a\<rceil> - 1)"
    have pos: "0 < \<lceil>1 / a\<rceil> - 1" using y by (simp add: less_ceiling_iff)
    then have c1: "1 \<le> ?c" by (simp add: bitlen_alt_def)
    have "2 ^ nat (?c - 1) \<le> \<lceil>1 / a\<rceil> - 1" using bitlen_bounds [OF pos] by simp
    then have "2 ^ nat (?c - 1) < \<lceil>1 / a\<rceil>" by simp
    then have "of_int (2 ^ nat (?c - 1)) < 1 / a" by (simp only: less_ceiling_iff)
    then have "2 ^ nat (?c - 1) < 1 / a" by simp
    then have "a < 1 / 2 ^ nat (?c - 1)" using assms
      by (simp add: field_simps)
    moreover have "(2::rat) powi (- ?c + 1) = 1 / 2 ^ nat (?c - 1)"
    proof -
      have "(2::rat) powi (- ?c + 1) = 2 powi (- (?c - 1))" by simp
      also have "\<dots> = 1 / 2 powi (?c - 1)" by (rule power_int_minus_divide)
      also have "\<dots> = 1 / 2 ^ nat (?c - 1)" using c1 by (simp add: power_int_nonneg_exp)
      finally show ?thesis .
    qed
    ultimately show ?thesis using False by (simp add: floor_log2_def)
  qed
qed

lemma floor_log2_ge: "0 < a \<Longrightarrow> 2 powi e \<le> a \<Longrightarrow> e \<le> floor_log2 a"
  using floor_log2_bounds(2) [of a] two_powi_less_iff [of e "floor_log2 a + 1"] by force

lemma floor_log2_le: "0 < a \<Longrightarrow> a < 2 powi (e + 1) \<Longrightarrow> floor_log2 a \<le> e"
  using floor_log2_bounds(1) [of a] two_powi_less_iff [of "floor_log2 a" "e + 1"] by force

lemma round_half_even_bounds:
  "of_int (round_half_even x) \<le> x + 1 / 2" "x - 1 / 2 \<le> of_int (round_half_even x)"
  unfolding round_half_even_def Let_def by (auto; linarith)+

lemma round_half_even_of_int [simp]: "round_half_even (of_int k) = k"
  by (simp add: round_half_even_def)

lemma round_half_even_mono_int:
  "of_int k \<le> x \<Longrightarrow> k \<le> round_half_even x" "x \<le> of_int k \<Longrightarrow> round_half_even x \<le> k"
  unfolding round_half_even_def Let_def by (auto simp add: le_floor_iff; linarith)+



lemma exponent_mask: "(0xFF :: float32) = mask 8"
  and fraction_mask: "(0x7FFFFF :: float32) = mask 23"
    by (simp_all add: mask_eq_exp_minus_1)


lemma uint_and_mask: "uint (w AND mask n :: float32) = uint w mod 2 ^ n"
  by (metis take_bit_eq_mask take_bit_eq_mod unsigned_take_bit_eq)

lemma uint_drop_bit_23: "uint (drop_bit 23 (w :: float32)) = uint w div 2 ^ 23"
  by (simp add: drop_bit_eq_div uint_div_distrib)

lemma f32_fields_uint:
  "f32_exponent f = (uint f div 2 ^ 23) mod 256"
  "f32_fraction f = uint f mod 2 ^ 23"
  "bit f 31 \<longleftrightarrow> 2 ^ 31 \<le> uint f"
proof -
  show "f32_exponent f = (uint f div 2 ^ 23) mod 256"
    unfolding f32_exponent_def exponent_mask by (simp add: uint_and_mask uint_drop_bit_23)
  show "f32_fraction f = uint f mod 2 ^ 23"
    unfolding f32_fraction_def fraction_mask by (simp add: uint_and_mask)
  have "bit f 31 \<longleftrightarrow> bit (uint f) 31"
    by (simp add: bit_uint_iff)
  also have "\<dots> \<longleftrightarrow> odd (uint f div 2 ^ 31)"
    by (simp add: bit_iff_odd)
  also have "\<dots> \<longleftrightarrow> 2 ^ 31 \<le> uint f"
  proof -
    have "0 \<le> uint f" and "uint f < 2 ^ 32"
      using uint_lt2p [of f] by simp_all
    then have "uint f div 2 ^ 31 = (if 2 ^ 31 \<le> uint f then 1 else 0)"
      by (auto simp add: div_pos_pos_trivial)
    then show ?thesis by simp
  qed
  finally show "bit f 31 \<longleftrightarrow> 2 ^ 31 \<le> uint f" .
qed


lemma f32_decode_bits:
  fixes E f s :: int
  assumes E: "1 \<le> E" "E \<le> 254" and f: "0 \<le> f" "f < 2 ^ 23" and s: "s = 0 \<or> s = 1"
  defines "b \<equiv> (word_of_int (s * 2 ^ 31 + (E * 2 ^ 23 + f)) :: float32)"
  shows "f32_exponent b = E" and "f32_fraction b = f" and "bit b 31 \<longleftrightarrow> s = 1"
proof -
  let ?z = "s * 2 ^ 31 + (E * 2 ^ 23 + f)"
  have z: "0 \<le> ?z" "?z < 2 ^ 32"
    using E f s by auto
  have "uint b = ?z mod 2 ^ LENGTH(32)"
    unfolding b_def by (rule uint_word_of_int)
  also have "\<dots> = ?z"
    using z by (simp add: mod_pos_pos_trivial)
  finally have u: "uint b = ?z" .
  have dv: "?z div 2 ^ 23 = s * 256 + E"
    using f by (simp add: div_pos_pos_trivial)
  have "?z mod 2 ^ 23 = (f + (s * 256 + E) * 2 ^ 23) mod 2 ^ 23"
    by (simp add: algebra_simps)
  also have "\<dots> = f mod 2 ^ 23"
    by (rule mod_mult_self1)
  also have "\<dots> = f"
    using f by (simp add: mod_pos_pos_trivial)
  finally have md: "?z mod 2 ^ 23 = f" .
  show "f32_exponent b = E"
    unfolding f32_fields_uint u dv using E by (simp add: mod_pos_pos_trivial)
  show "f32_fraction b = f"
    unfolding f32_fields_uint u md ..
  show "bit b 31 \<longleftrightarrow> s = 1"
    unfolding f32_fields_uint u using E f s by auto
qed


lemma two_powi_add: "(2::rat) powi (a + b) = 2 powi a * 2 powi b"
  by (rule power_int_add) simp

lemma f32_round_normal:
  fixes x :: rat
  assumes nz: "x \<noteq> 0" and lo: "- 126 \<le> floor_log2 \<bar>x\<bar>" and hi: "floor_log2 \<bar>x\<bar> \<le> 126"
  defines "e \<equiv> floor_log2 \<bar>x\<bar>"
  defines "m \<equiv> round_half_even (\<bar>x\<bar> * 2 powi (23 - e))"
  shows "2 ^ 23 \<le> m" and "m \<le> 2 ^ 24"
    and "f32_value (f32_round x) = (if x < 0 then - 1 else 1) * of_int m * 2 powi (e - 23)"
    and "1 \<le> f32_exponent (f32_round x)" and "f32_exponent (f32_round x) \<le> 254"
proof -
  let ?a = "\<bar>x\<bar>"
  let ?y = "?a * 2 powi (23 - e)"
  have pos: "0 < ?a" using nz by simp
  have fl: "2 powi e \<le> ?a" "?a < 2 powi (e + 1)"
    unfolding e_def using floor_log2_bounds [OF pos] by simp_all
  have p: "(0::rat) < 2 powi (23 - e)" by simp
  have "2 powi e * 2 powi (23 - e) \<le> ?y"
    using fl(1) p by (simp only: mult_le_cancel_right_pos)
  moreover have "(2::rat) powi e * 2 powi (23 - e) = 2 ^ 23"
    using two_powi_add [of e "23 - e"] by simp
  ultimately have y1: "of_int (2 ^ 23) \<le> ?y" by simp
  have "?y < 2 powi (e + 1) * 2 powi (23 - e)"
    using fl(2) p by (simp only: mult_less_cancel_right_pos)
  moreover have "(2::rat) powi (e + 1) * 2 powi (23 - e) = 2 ^ 24"
    using two_powi_add [of "e + 1" "23 - e"] by simp
  ultimately have y2: "?y \<le> of_int (2 ^ 24)" by simp
  show m1: "2 ^ 23 \<le> m"
    unfolding m_def using y1 by (rule round_half_even_mono_int)
  show m2: "m \<le> 2 ^ 24"
    unfolding m_def using y2 by (rule round_half_even_mono_int)
  define s :: int where "s = (if x < 0 then 1 else 0)"
  define E where "E = (if m = 2 ^ 24 then e + 128 else e + 127)"
  define f where "f = (if m = 2 ^ 24 then 0 else m - 2 ^ 23)"
  have bits: "(e + 126) * 2 ^ 23 + m = E * 2 ^ 23 + f"
    unfolding E_def f_def by (simp add: algebra_simps)
  have E: "1 \<le> E" "E \<le> 254" using lo hi unfolding E_def e_def by auto
  have f: "0 \<le> f" "f < 2 ^ 23" using m1 m2 unfolding f_def by auto
  have small: "\<not> 0x7F800000 \<le> E * 2 ^ 23 + f"
    using E f by simp
  have mx: "max (floor_log2 ?a) (- 126) = e"
    using lo unfolding e_def by simp
  have r: "f32_round x = word_of_int (s * 2 ^ 31 + (E * 2 ^ 23 + f))"
    using nz small unfolding f32_round_def Let_def mx m_def [symmetric] bits s_def
    by simp
  have s01: "s = 0 \<or> s = 1" unfolding s_def by simp
  note dec = f32_decode_bits [OF E f s01, folded r]
  show "1 \<le> f32_exponent (f32_round x)" "f32_exponent (f32_round x) \<le> 254"
    using dec(1) E by simp_all
  have val: "(of_int (2 ^ 23 + f) :: rat) * 2 powi (E - 150) = of_int m * 2 powi (e - 23)"
  proof (cases "m = 2 ^ 24")
    case True
    have "(2::rat) powi (e - 22) = 2 powi (e - 23) * 2"
      using two_powi_add [of "e - 23" 1] by simp
    then show ?thesis using True unfolding E_def f_def by simp
  next
    case False
    then show ?thesis unfolding E_def f_def by simp
  qed
  show "f32_value (f32_round x) = (if x < 0 then - 1 else 1) * of_int m * 2 powi (e - 23)"
    unfolding f32_value_def dec using E val by (simp add: s_def)
qed


lemma f32_round_exact:
  fixes x :: rat and k E :: int
  assumes x: "x = of_int k * 2 powi E" and k: "k \<noteq> 0" "\<bar>k\<bar> < 2 ^ 24"
    and lo: "- 126 \<le> floor_log2 \<bar>x\<bar>" and hi: "floor_log2 \<bar>x\<bar> \<le> 126"
  shows "f32_value (f32_round x) = x"
proof -
  define e where "e = floor_log2 \<bar>x\<bar>"
  have nz: "x \<noteq> 0" using x k by simp
  have ax: "\<bar>x\<bar> = of_int \<bar>k\<bar> * 2 powi E"
    unfolding x by (simp add: abs_mult)
  have "(of_int \<bar>k\<bar> :: rat) < of_int (2 ^ 24)"
    using k(2) by (simp only: of_int_less_iff)
  then have "\<bar>x\<bar> < 2 ^ 24 * 2 powi E"
    unfolding ax by simp
  also have "\<dots> = 2 powi (E + 23 + 1)"
    using two_powi_add [of 24 E] by (simp add: add.commute)
  finally have "e \<le> E + 23"
    unfolding e_def using nz by (intro floor_log2_le) simp_all
  then obtain d :: nat where d: "E + 23 - e = int d"
    using nonneg_int_cases [of "E + 23 - e"] by auto
  have "\<bar>x\<bar> * 2 powi (23 - e) = of_int \<bar>k\<bar> * (2 powi E * 2 powi (23 - e))"
    unfolding ax by simp
  also have "(2::rat) powi E * 2 powi (23 - e) = 2 powi (E + 23 - e)"
    using two_powi_add [of E "23 - e"] by (simp add: algebra_simps)
  also have "\<dots> = 2 ^ d"
    unfolding d by simp
  finally have y: "\<bar>x\<bar> * 2 powi (23 - e) = of_int (\<bar>k\<bar> * 2 ^ d)"
    by simp
  have m: "round_half_even (\<bar>x\<bar> * 2 powi (23 - e)) = \<bar>k\<bar> * 2 ^ d"
    unfolding y by (rule round_half_even_of_int)
  have "f32_value (f32_round x)
      = (if x < 0 then - 1 else 1) * of_int (\<bar>k\<bar> * 2 ^ d) * 2 powi (e - 23)"
    using f32_round_normal(3) [OF nz lo hi] unfolding e_def [symmetric] m .
  also have "\<dots> = (if x < 0 then - 1 else 1) * (of_int \<bar>k\<bar> * (2 powi (int d) * 2 powi (e - 23)))"
    by simp
  also have "(2::rat) powi (int d) * 2 powi (e - 23) = 2 powi E"
  proof -
    have "E = int d + (e - 23)" using d by simp
    then show ?thesis by (simp only: two_powi_add)
  qed
  also have "(if x < 0 then - 1 else 1) * (of_int \<bar>k\<bar> * 2 powi E) = x"
    unfolding ax [symmetric] by simp
  finally show ?thesis .
qed

lemma f32_value_consts:
  "f32_value 0x477FFF00 = 65535" "f32_value 0x40000000 = 2" "f32_value 0x3F800000 = 1"
  "f32_value 0 = 0"
  by code_simp+


lemma f32_round_minus_one: "f32_round (- 1) = 0xBF800000"
  by code_simp

lemma f32_fields_minus_one: "f32_value 0xBF800000 = - 1" "f32_exponent 0xBF800000 = 127"
  by code_simp+

lemma unit_draw_bounds:
  fixes n :: int
  assumes n: "0 \<le> n" "n \<le> 65535"
  defines "a0 \<equiv> f32_round (of_int n)"
  defines "q \<equiv> f32_round (f32_value a0 / 65535)"
  defines "t \<equiv> f32_round (f32_value q * 2)"
  defines "r \<equiv> f32_round (f32_value t - 1)"
  shows "2 powi (- 17) \<le> \<bar>f32_value r\<bar>" and "1 \<le> f32_exponent r" and "f32_exponent r \<le> 254"
proof -
  have "2 powi (- 17) \<le> \<bar>f32_value r\<bar> \<and> 1 \<le> f32_exponent r \<and> f32_exponent r \<le> 254"
  proof (cases "n = 0")
    case True
    have "a0 = 0" unfolding a0_def True by (simp add: f32_round_def)
    then have "q = 0" unfolding q_def by (simp add: f32_value_consts f32_round_def)
    then have "t = 0" unfolding t_def by (simp add: f32_value_consts f32_round_def)
    then have "r = 0xBF800000" unfolding r_def by (simp add: f32_value_consts f32_round_minus_one)
    then show ?thesis by (simp add: f32_fields_minus_one power_int_minus_divide)
  next
    case False
    with n have n1: "1 \<le> n" by simp
    let ?n = "of_int n :: rat"
    have npos: "0 < ?n" using n1 by simp
    \<comment> \<open>the conversion is exact\<close>
    have "(2::rat) powi 0 \<le> \<bar>?n\<bar>" using n1 by simp
    then have e0lo: "0 \<le> floor_log2 \<bar>?n\<bar>" using npos by (intro floor_log2_ge) simp_all
    have "?n < of_int (2 ^ 16)" using n(2) by (simp only: of_int_less_iff) simp
    then have "\<bar>?n\<bar> < 2 powi (15 + 1)" using npos by simp
    then have e0hi: "floor_log2 \<bar>?n\<bar> \<le> 15" using npos by (intro floor_log2_le) simp_all
    have va0: "f32_value a0 = ?n"
      unfolding a0_def
      using f32_round_exact [of ?n n 0] n1 n(2) e0lo e0hi by simp
    \<comment> \<open>the quotient is rounded, with an error of at most \<open>2 powi (- 24)\<close>\<close>
    define x1 where "x1 = ?n / 65535"
    have x1pos: "0 < x1" unfolding x1_def using npos by simp
    have ax1: "\<bar>x1\<bar> = x1" using x1pos by simp
    define e1 where "e1 = floor_log2 x1"
    have "(2::rat) powi (- 16) \<le> 1 / 65535" by (simp add: power_int_minus_divide)
    also have "\<dots> \<le> x1" unfolding x1_def using n1 by (simp add: divide_right_mono)
    finally have e1lo: "- 16 \<le> e1" unfolding e1_def using x1pos by (intro floor_log2_ge)
    have "x1 \<le> 1" unfolding x1_def using n(2) by simp
    then have "x1 < 2 powi (0 + 1)" by simp
    then have e1hi: "e1 \<le> 0" unfolding e1_def using x1pos by (intro floor_log2_le)
    define y where "y = x1 * 2 powi (23 - e1)"
    define m1 where "m1 = round_half_even y"
    have x1nz: "x1 \<noteq> 0" using x1pos by simp
    have lo1: "- 126 \<le> floor_log2 \<bar>x1\<bar>" and hi1: "floor_log2 \<bar>x1\<bar> \<le> 126"
      using e1lo e1hi unfolding ax1 e1_def by simp_all
    note rn1 = f32_round_normal [OF x1nz lo1 hi1, unfolded ax1, folded e1_def, folded y_def,
        folded m1_def]
    have m1lo: "2 ^ 23 \<le> m1" and m1hi: "m1 \<le> 2 ^ 24" using rn1(1,2) .
    have vq: "f32_value q = of_int m1 * 2 powi (e1 - 23)"
      unfolding q_def va0 x1_def [symmetric] using rn1(3) x1pos by simp
    have x1y: "x1 = y * 2 powi (e1 - 23)"
    proof -
      have "(2::rat) powi (23 - e1) * 2 powi (e1 - 23) = 2 powi (23 - e1 + (e1 - 23))"
        by (simp only: two_powi_add)
      then show ?thesis unfolding y_def by simp
    qed
    have "\<bar>of_int m1 - y\<bar> \<le> 1 / 2"
      using round_half_even_bounds [of y] unfolding m1_def by linarith
    moreover have "f32_value q - x1 = (of_int m1 - y) * 2 powi (e1 - 23)"
    proof -
      have "f32_value q - x1 = of_int m1 * 2 powi (e1 - 23) - y * 2 powi (e1 - 23)"
        unfolding vq by (subst x1y) (rule refl)
      then show ?thesis by (simp only: left_diff_distrib)
    qed
    ultimately have "\<bar>f32_value q - x1\<bar> \<le> 1 / 2 * 2 powi (e1 - 23)"
      by (simp add: abs_mult mult_right_mono)
    also have "\<dots> \<le> 1 / 2 * 2 powi (- 23)"
    proof -
      have "e1 - 23 \<le> - 23" using e1hi by simp
      then have "(2::rat) powi (e1 - 23) \<le> 2 powi (- 23)" by (simp only: two_powi_le_iff)
      then show ?thesis by simp
    qed
    finally have err: "\<bar>f32_value q - x1\<bar> \<le> 1 / 2 ^ 24"
      by (simp add: power_int_minus_divide)
    \<comment> \<open>doubling is exact\<close>
    define x2 where "x2 = f32_value q * 2"
    have x2eq: "x2 = of_int m1 * 2 powi (e1 - 22)"
      unfolding x2_def vq using two_powi_add [of "e1 - 23" 1] by simp
    have m1pos: "(0::rat) < of_int m1" using m1lo by simp
    have x2pos: "0 < x2" unfolding x2eq using m1pos by simp
    have "(2::rat) powi (e1 + 1) = 2 ^ 23 * 2 powi (e1 - 22)"
      using two_powi_add [of 23 "e1 - 22"] by (simp add: add.commute)
    also have "\<dots> \<le> x2"
      unfolding x2eq using m1lo by (simp add: mult_right_mono flip: of_int_le_iff)
    finally have x2lo: "2 powi (e1 + 1) \<le> x2" .
    have "x2 \<le> 2 ^ 24 * 2 powi (e1 - 22)"
      unfolding x2eq using m1hi by (simp add: mult_right_mono flip: of_int_le_iff)
    also have "\<dots> = 2 powi (e1 + 2)"
      using two_powi_add [of 24 "e1 - 22"] by (simp add: add.commute)
    finally have x2hi: "x2 \<le> 2 powi (e1 + 2)" .
    have "(2::rat) powi (e1 + 2) \<le> 2 powi 2" using e1hi by (simp only: two_powi_le_iff)
    with x2hi have x2le4: "x2 \<le> 4" by simp
    have e2lo: "- 126 \<le> floor_log2 \<bar>x2\<bar>"
    proof -
      have "- 126 \<le> e1 + 1" using e1lo by simp
      then have "(2::rat) powi (- 126) \<le> 2 powi (e1 + 1)" by (simp only: two_powi_le_iff)
      with x2lo have "2 powi (- 126) \<le> \<bar>x2\<bar>" using x2pos by simp
      then show ?thesis using x2pos by (intro floor_log2_ge) simp_all
    qed
    have e2hi: "floor_log2 \<bar>x2\<bar> \<le> 126"
    proof -
      have "\<bar>x2\<bar> < 2 powi (126 + 1)" using x2le4 x2pos by simp
      then show ?thesis using x2pos by (intro floor_log2_le) simp_all
    qed
    have vt: "f32_value t = x2"
    proof (cases "m1 = 2 ^ 24")
      case True
      have "x2 = of_int 1 * 2 powi (e1 + 2)"
        unfolding x2eq True using two_powi_add [of 24 "e1 - 22"] by (simp add: add.commute)
      then show ?thesis
        unfolding t_def x2_def [symmetric]
        using f32_round_exact [of x2 1 "e1 + 2"] e2lo e2hi by simp
    next
      case False
      with m1hi have "m1 < 2 ^ 24" by simp
      then have "\<bar>m1\<bar> < 2 ^ 24" using m1lo by simp
      moreover have "m1 \<noteq> 0" using m1lo by simp
      ultimately show ?thesis
        unfolding t_def x2_def [symmetric] using x2eq e2lo e2hi by (intro f32_round_exact)
    qed
    \<comment> \<open>\<open>2 n - 65535\<close> is odd, so the difference stays away from zero\<close>
    define x3 where "x3 = x2 - 1"
    have "1 \<le> \<bar>2 * n - 65535\<bar>" by presburger
    then have "(of_int 1::rat) \<le> of_int \<bar>2 * n - 65535\<bar>"
      by (simp only: of_int_le_iff)
    then have "(1::rat) \<le> \<bar>2 * ?n - 65535\<bar>"
      by simp
    then have "1 / 65535 \<le> \<bar>2 * ?n - 65535\<bar> / 65535"
      by (rule divide_right_mono) simp
    also have "\<dots> = \<bar>(2 * ?n - 65535) / 65535\<bar>"
      by simp
    also have "(2 * ?n - 65535) / 65535 = 2 * x1 - 1"
      unfolding x1_def by (simp add: diff_divide_distrib)
    finally have gap: "1 / 65535 \<le> \<bar>2 * x1 - 1\<bar>" .
    have "2 * x1 - 1 = x3 - 2 * (f32_value q - x1)"
      unfolding x3_def x2_def by simp
    then have "\<bar>2 * x1 - 1\<bar> \<le> \<bar>x3\<bar> + \<bar>2 * (f32_value q - x1)\<bar>"
      by (simp only: abs_triangle_ineq4)
    moreover have "\<bar>2 * (f32_value q - x1)\<bar> = 2 * \<bar>f32_value q - x1\<bar>"
      by (simp only: abs_mult abs_numeral)
    ultimately have "\<bar>2 * x1 - 1\<bar> \<le> \<bar>x3\<bar> + 2 * \<bar>f32_value q - x1\<bar>"
      by (simp only:)
    then have x3lo: "2 powi (- 17) \<le> \<bar>x3\<bar>"
    proof -
      define A B X where "A = \<bar>2 * x1 - 1\<bar>" and "B = \<bar>f32_value q - x1\<bar>" and "X = \<bar>x3\<bar>"
      assume "\<bar>2 * x1 - 1\<bar> \<le> \<bar>x3\<bar> + 2 * \<bar>f32_value q - x1\<bar>"
      then have 1: "A \<le> X + 2 * B" unfolding A_def B_def X_def .
      have 2: "1 / 65535 \<le> A" using gap unfolding A_def .
      have 3: "B \<le> 1 / 16777216" using err unfolding B_def by simp
      have "(2::rat) powi (- 17) = 1 / 131072" by (simp add: power_int_minus_divide)
      with 1 2 3 show "2 powi (- 17) \<le> X" by simp
    qed
    have "(0::rat) < 2 powi (- 17)" by simp
    with x3lo have x3nz: "x3 \<noteq> 0" by linarith
    have e3lo17: "- 17 \<le> floor_log2 \<bar>x3\<bar>"
      using x3lo x3nz by (intro floor_log2_ge) simp_all
    then have e3lo: "- 126 \<le> floor_log2 \<bar>x3\<bar>" by simp
    have e3hi: "floor_log2 \<bar>x3\<bar> \<le> 126"
    proof -
      have "\<bar>x3\<bar> \<le> 3" unfolding x3_def using x2pos x2le4 by simp
      then have "\<bar>x3\<bar> < 2 powi (126 + 1)" by simp
      then show ?thesis using x3nz by (intro floor_log2_le) simp_all
    qed
    note rn3 = f32_round_normal [OF x3nz e3lo e3hi]
    define e3 where "e3 = floor_log2 \<bar>x3\<bar>"
    define m3 where "m3 = round_half_even (\<bar>x3\<bar> * 2 powi (23 - e3))"
    have r: "r = f32_round x3" unfolding r_def vt x3_def ..
    have "\<bar>f32_value r\<bar> = of_int m3 * 2 powi (e3 - 23)"
      unfolding r rn3(3) e3_def m3_def using rn3(1) by (simp add: abs_mult)
    moreover have "(2::rat) ^ 23 * 2 powi (e3 - 23) \<le> of_int m3 * 2 powi (e3 - 23)"
      using rn3(1) unfolding e3_def [symmetric] m3_def [symmetric]
      by (intro mult_right_mono) (simp_all flip: of_int_le_iff)
    moreover have "(2::rat) ^ 23 * 2 powi (e3 - 23) = 2 powi e3"
      using two_powi_add [of 23 "e3 - 23"] by simp
    moreover have "(2::rat) powi (- 17) \<le> 2 powi e3"
      using e3lo17 unfolding e3_def by (simp only: two_powi_le_iff)
    ultimately have "2 powi (- 17) \<le> \<bar>f32_value r\<bar>" by linarith
    then show ?thesis using rn3(4,5) unfolding r by simp
  qed
  then show "2 powi (- 17) \<le> \<bar>f32_value r\<bar>" and "1 \<le> f32_exponent r"
    and "f32_exponent r \<le> 254"
    by simp_all
qed

lemma uint_masked_state:
  "0 \<le> uint (state AND 0xFFFF :: 64 word)" "uint (state AND 0xFFFF :: 64 word) \<le> 65535"
proof -
  have "(0xFFFF :: 64 word) = mask 16" by (simp add: mask_eq_exp_minus_1)
  then have "uint (state AND 0xFFFF) = uint state mod 2 ^ 16"
    by (metis take_bit_eq_mask take_bit_eq_mod unsigned_take_bit_eq)
  moreover have "uint state mod 2 ^ 16 < 2 ^ 16" by simp
  ultimately show "uint (state AND 0xFFFF :: 64 word) \<le> 65535" by simp
  show "0 \<le> uint (state AND 0xFFFF :: 64 word)" by simp
qed

lemma isfinite_exponent: "isfinite f \<longleftrightarrow> f32_exponent f \<noteq> 255"
  by (simp add: isfinite_def f32_exponent_def word_uint_eq_iff)

lemma key_component_bounds:
  "2 powi (- 17) \<le> \<bar>f32_value (key_component state)\<bar>" "isfinite (key_component state)"
proof -
  note b = unit_draw_bounds [OF uint_masked_state, of state]
  show "2 powi (- 17) \<le> \<bar>f32_value (key_component state)\<bar>"
    using b(1)
    by (simp only: key_component_def f32_sub_def f32_mul_def f32_div_def f32_of_uint64_def
        f32_value_consts)
  have "f32_exponent (key_component state) \<le> 254"
    using b(3)
    by (simp only: key_component_def f32_sub_def f32_mul_def f32_div_def f32_of_uint64_def
        f32_value_consts)
  then show "isfinite (key_component state)"
    by (simp add: isfinite_exponent)
qed

lemma generate_key_draws_bounds:
  "quaternion_is_valid (Some (generate_key_draws seed))"
  "2 powi (- 17) \<le> \<bar>f32_value (q_w (generate_key_draws seed))\<bar>"
  "2 powi (- 17) \<le> \<bar>f32_value (q_x (generate_key_draws seed))\<bar>"
  "2 powi (- 17) \<le> \<bar>f32_value (q_y (generate_key_draws seed))\<bar>"
  "2 powi (- 17) \<le> \<bar>f32_value (q_z (generate_key_draws seed))\<bar>"
  by (simp_all only: generate_key_draws_def Let_def quaternion_t.select_convs
      quaternion_is_valid_def option.case key_component_bounds simp_thms)

lemma square_bound:
  fixes v :: rat
  assumes "2 powi (- 17) \<le> \<bar>v\<bar>"
  shows "2 powi (- 34) \<le> v\<^sup>2"
proof -
  have "(2 powi (- 17))\<^sup>2 \<le> \<bar>v\<bar>\<^sup>2"
    using assms by (intro power_mono) simp_all
  moreover have "((2::rat) powi (- 17))\<^sup>2 = 2 powi (- 34)"
    by (simp add: power_int_minus_divide power2_eq_square)
  ultimately show ?thesis by simp
qed

lemma generate_key_draws_norm:
  "2 powi (- 32) \<le> quaternion_norm_sq (generate_key_draws seed)"
proof -
  have "4 * 2 powi (- 34) \<le> quaternion_norm_sq (generate_key_draws seed)"
    unfolding quaternion_norm_sq_def
    using generate_key_draws_bounds(2-5) [of seed, THEN square_bound] by linarith
  moreover have "4 * (2::rat) powi (- 34) = 2 powi (- 32)"
    by (simp add: power_int_minus_divide)
  ultimately show ?thesis by simp
qed

section \<open>Runs of the codec\<close>

lemma store_below:
  assumes "store off d buf = Some buf'" and "a + m \<le> off"
  shows "take m (drop a buf') = take m (drop a buf)"
  using assms by (auto simp add: store_def drop_take min_def split: if_splits)

lemma decrypt_data_overrun:
  fixes cl pl :: size_t
  assumes hdr: "header_size \<le> cl"
    and buf: "unat cl \<le> length c"
    and magic: "u32_of_bytes (take 4 c) = 0xDEADBEEF"
    and cap: "size_of_bytes (take 8 (drop 8 c)) \<le> pl"
    and short: "length p < unat cl - 40"
  shows "hypercomplex_decrypt_data T (Some c) cl (Some k) (Some p) (Some pl) = None"
proof -
  have hs: "unat header_size = 40" by (simp add: header_size_def)
  have ge: "\<not> cl < header_size" using hdr by simp
  have ge40: "40 \<le> unat cl" using hdr by (simp add: word_le_nat_alt hs)
  have ds: "unat (cl - header_size) = unat cl - 40"
    using hdr by (simp add: unat_sub hs)
  have ncap: "\<not> pl < size_of_bytes (take 8 (drop 8 c))" using cap by simp
  have l1: "load off_magic 4 c = Some (take 4 c)"
    using ge40 buf by (simp add: load_def off_magic_def)
  have l2: "load off_length 8 c = Some (take 8 (drop 8 c))"
    using ge40 buf by (simp add: load_def off_length_def)
  have l3: "load 40 (unat cl - 40) c = Some (take (unat cl - 40) (drop 40 c))"
    using ge40 buf by (simp add: load_def)
  have st: "store 0 (take (unat cl - 40) (drop 40 c)) p = None"
    using short ge40 buf by (simp add: store_def)
  show ?thesis
    unfolding hypercomplex_decrypt_data_def
    by (simp add: ge hs ds ncap magic l1 l2 l3 st Let_def)
qed

lemma encrypt_data_success_header:
  fixes len cap n :: size_t
  assumes enc: "hypercomplex_encrypt_data T (Some pt) len (Some k) (Some buf) (Some cap)
      = Some (Success, Some c, Some n)"
    and fits: "40 + padded16 (unat len) < 2 ^ 64"
  shows "unat n = 40 + padded16 (unat len)" and "length c = length buf"
    and "40 + padded16 (unat len) \<le> length buf"
    and "take 4 c = bytes_of_u32 0xDEADBEEF" and "take 8 (drop 8 c) = bytes_of_size len"
proof -
  let ?P = "padded16 (unat len)"
  let ?block = "take (unat len) pt @ replicate (?P - unat len) (0 :: byte)"
  let ?total = "header_size + ((len + 15) div 16) * 16"
  from enc fits have valid: "quaternion_is_valid (Some k)" and cap: "40 + ?P \<le> unat cap"
    and src: "unat len \<le> length pt" and room: "40 + ?P \<le> length buf"
    using encrypt_data_success_bounds by blast+
  obtain s0 g1 s2 s3 s4 g2 region rest where
    buf: "buf = s0 @ g1 @ s2 @ s3 @ s4 @ g2 @ region @ rest"
    and lens: "length s0 = 4" "length g1 = 4" "length s2 = 8" "length s3 = 16"
      "length s4 = 4" "length g2 = 4" "length region = ?P"
    using room by (rule buffer_segments)
  obtain r out where T: "T ?block k = (r, out)"
    by (cases "T ?block k")
  let ?b6 = "bytes_of_u32 0xDEADBEEF @ g1 @ bytes_of_size len @ bytes_of_quaternion k
      @ bytes_of_u32 (compute_checksum pt len) @ g2 @ ?block @ rest"
  have run: "store 40 out ?b6 \<bind>
      (\<lambda>b7. if r = HC_SUCCESS then Some (Success, Some b7, Some ?total)
            else Some (TransformFailed r, Some b7, Some cap))
      = Some (Success, Some c, Some n)"
    using encrypt_data_run [where T = T and k = k and len = len and cap = cap and pt = pt
        and ?s0.0 = s0 and ?g1.0 = g1 and ?s2.0 = s2 and ?s3.0 = s3 and ?s4.0 = s4
        and ?g2.0 = g2 and region = region and rest = rest]
      valid fits cap src lens T enc
    by (simp add: buf)
  then have st: "store 40 out ?b6 = Some c" and n: "n = ?total"
    by (auto split: bind_splits if_splits)
  have ge: "unat len \<le> ?P" by (rule padded16_ge)
  have lb6: "length ?b6 = length buf"
    using lens src ge by (simp add: buf)
  show "unat n = 40 + ?P"
    unfolding n using fits by (rule unat_total_size)
  show "length c = length buf"
    using store_length [OF st] lb6 by simp
  show "40 + ?P \<le> length buf" by (rule room)
  have "take 4 (drop 0 c) = take 4 (drop 0 ?b6)"
    using st by (rule store_below) simp
  then show "take 4 c = bytes_of_u32 0xDEADBEEF" by simp
  have "take 8 (drop 8 c) = take 8 (drop 8 ?b6)"
    using st by (rule store_below) simp
  then show "take 8 (drop 8 c) = bytes_of_size len"
    using lens by simp
qed

lemma decrypt_data_checksum_mismatch:
  fixes cl pl :: size_t
  assumes buf: "unat cl \<le> length c"
    and hdr: "header_size \<le> cl"
    and magic: "u32_of_bytes (take 4 c) = 0xDEADBEEF"
    and cap: "size_of_bytes (take 8 (drop 8 c)) \<le> pl"
    and room: "unat cl - 40 \<le> length p" "unat pl \<le> length p"
    and T: "T (take (unat cl - 40) (drop 40 c))
              (quaternion_conjugate (quaternion_of_bytes (take 16 (drop 16 c))))
            = (HC_SUCCESS, out)"
    and out: "length out = unat cl - 40"
    and bad: "compute_checksum (out @ drop (length out) p) (size_of_bytes (take 8 (drop 8 c)))
              \<noteq> u32_of_bytes (take 4 (drop 32 c))"
  shows "hypercomplex_decrypt_data T (Some c) cl (Some k) (Some p) (Some pl)
      = Some (IntegrityMismatch, Some (out @ drop (length out) p),
              Some (size_of_bytes (take 8 (drop 8 c))))"
proof -
  let ?n = "unat cl - 40"
  have ge: "40 \<le> unat cl"
    using hdr by (simp add: word_le_nat_alt header_size_def)
  then have "40 + ?n \<le> length c"
    using buf by simp
  then obtain s0 g1 s2 s3 s4 g2 region rest where
    c: "c = s0 @ g1 @ s2 @ s3 @ s4 @ g2 @ region @ rest"
    and lens: "length s0 = 4" "length g1 = 4" "length s2 = 8" "length s3 = 16"
      "length s4 = 4" "length g2 = 4" "length region = ?n"
    and segs: "s0 = take 4 c" "s2 = take 8 (drop 8 c)" "s3 = take 16 (drop 16 c)"
      "s4 = take 4 (drop 32 c)" "region = take ?n (drop 40 c)"
    by (rule buffer_segments)
  have hl: "unat (size_of_bytes s2) \<le> length p"
    using cap room(2) by (simp add: segs word_le_nat_alt)
  have "hypercomplex_decrypt_data T (Some (s0 @ g1 @ s2 @ s3 @ s4 @ g2 @ region @ rest)) cl
      (Some k) (Some p) (Some pl)
    = Some (IntegrityMismatch, Some (out @ drop (length out) p), Some (size_of_bytes s2))"
    using decrypt_data_layout [where m = s0 and ?g1.0 = g1 and lb = s2 and kb = s3 and cb = s4
        and ?g2.0 = g2 and payload = region and cl = cl and pl = pl and p = p and T = T
        and r = HC_SUCCESS and out = out and rest = rest and k = k]
      lens ge magic cap room(1) hl T out bad
    by (simp add: segs [symmetric])
  then show ?thesis
    unfolding segs(2) [symmetric] c [symmetric] .
qed

lemma encrypt_data_invalid_key:
  assumes "\<not> quaternion_is_valid (Some k)"
  shows "hypercomplex_encrypt_data T (Some pt) len (Some k) (Some buf) (Some cap)
    = Some (InvalidKey, Some buf, Some cap)"
  using assms by (simp add: hypercomplex_encrypt_data_def)

lemma decrypt_data_too_small:
  fixes cl pl :: size_t
  assumes hdr: "header_size \<le> cl"
    and buf: "unat cl \<le> length c"
    and magic: "u32_of_bytes (take 4 c) = 0xDEADBEEF"
    and small: "pl < size_of_bytes (take 8 (drop 8 c))"
  shows "hypercomplex_decrypt_data T (Some c) cl (Some k) (Some p) (Some pl)
    = Some (BufferTooSmall, Some p, Some (size_of_bytes (take 8 (drop 8 c))))"
proof -
  have ge: "\<not> cl < header_size" using hdr by simp
  have ge40: "40 \<le> unat cl" using hdr by (simp add: word_le_nat_alt header_size_def)
  have l1: "load off_magic 4 c = Some (take 4 c)"
    using ge40 buf by (simp add: load_def off_magic_def)
  have l2: "load off_length 8 c = Some (take 8 (drop 8 c))"
    using ge40 buf by (simp add: load_def off_length_def)
  show ?thesis
    unfolding hypercomplex_decrypt_data_def
    by (simp add: ge magic small l1 l2)
qed

lemma encrypt_data_codes:
  assumes "hypercomplex_encrypt_data T pt len k c cl = Some (st, b, l)"
  shows "return_code st \<in> {HC_SUCCESS, HC_ERROR_NULL_PTR, HC_ERROR_INVALID_DATA}
     \<or> (\<exists>block q. return_code st = fst (T block q))"
  using assms
  by (auto simp add: hypercomplex_encrypt_data_def Let_def
      split: if_splits bind_splits prod.splits)
    (metis fst_conv)+

lemma decrypt_data_codes:
  assumes "hypercomplex_decrypt_data T c cl k p pl = Some (st, b, l)"
  shows "return_code st \<in> {HC_SUCCESS, HC_ERROR_NULL_PTR, HC_ERROR_INVALID_DATA}
     \<or> (\<exists>block q. return_code st = fst (T block q))"
  using assms
  by (auto simp add: hypercomplex_decrypt_data_def Let_def
      split: if_splits bind_splits prod.splits)
    (metis fst_conv)+

section \<open>The checksum\<close>

text \<open>
  C4. For every byte sequence (the first \<open>len\<close> bytes of a buffer that holds at least
  \<open>len\<close> bytes), \<open>compute_checksum\<close> is the left fold, from accumulator 0, of
  \<open>acc \<mapsto> (acc << 1) XOR byte\<close> in 32-bit wrap-around arithmetic. The checksum of the empty
  sequence is 0, and the digest depends on the order of the bytes: the sequences 1, 2 and
  2, 1 have different checksums.
\<close>

theorem compute_checksum_left_fold:
  "(unat len \<le> length bytes \<longrightarrow>
      compute_checksum bytes len = checksum_fold (take (unat len) bytes))
   \<and> compute_checksum [] 0 = 0
   \<and> compute_checksum [1, 2] 2 \<noteq> compute_checksum [2, 1] 2"
proof (intro conjI impI)
  assume "unat len \<le> length bytes"
  then show "compute_checksum bytes len = checksum_fold (take (unat len) bytes)"
    by (rule compute_checksum_fold)
next
  show "compute_checksum [] 0 = 0"
    by code_simp
next
  have "compute_checksum [1, 2] 2 = 0" and "compute_checksum [2, 1] 2 = 5"
    by code_simp+
  then show "compute_checksum [1, 2] 2 \<noteq> compute_checksum [2, 1] 2"
    by simp
qed

theorem compute_checksum_left_fold_witness:
  "unat (3 :: size_t) \<le> length [1, 2, 3 :: byte]
   \<and> compute_checksum [1, 2, 3] 3 = checksum_fold [1, 2, 3]
   \<and> checksum_fold [1, 2, 3] = 3"
  using compute_checksum_left_fold [of 3 "[1, 2, 3]"]
  by (simp add: checksum_fold_def)

section \<open>Round trip\<close>

text \<open>
  With an output buffer and capacity of at least the padded length, decoding what was
  encoded gives back the plaintext and its length, for every valid key at which the
  block transform satisfies its contract.
\<close>

lemma roundtrip_for_key:
  fixes len cap pl :: size_t
  assumes valid: "quaternion_is_valid (Some k)"
    and contract: "transform_inverts T k"
    and fits: "40 + padded16 (unat len) < 2 ^ 64"
    and src: "unat len \<le> length pt"
    and cap: "40 + padded16 (unat len) \<le> unat cap" "unat cap \<le> length cbuf"
    and pl: "padded16 (unat len) \<le> unat pl" "unat pl \<le> length pbuf"
  shows "\<exists>c total p'.
      hypercomplex_encrypt_data T (Some pt) len (Some k) (Some cbuf) (Some cap)
        = Some (Success, Some c, Some total)
      \<and> unat total = 40 + padded16 (unat len)
      \<and> hypercomplex_decrypt_data T (Some c) total (Some k) (Some pbuf) (Some pl)
        = Some (Success, Some p', Some len)
      \<and> take (unat len) p' = take (unat len) pt"
proof -
  let ?P = "padded16 (unat len)"
  let ?src = "take (unat len) pt"
  let ?block = "?src @ replicate (?P - unat len) (0 :: byte)"
  let ?total = "header_size + ((len + 15) div 16) * 16"
  have ge: "unat len \<le> ?P" by (rule padded16_ge)
  have lblock: "length ?block = ?P" using src ge by simp
  have "16 dvd ?P" by (simp add: padded16_eq)
  with contract lblock obtain out where
    T1: "T ?block k = (HC_SUCCESS, out)" and lout: "length out = ?P"
    and T2: "T out (quaternion_conjugate k) = (HC_SUCCESS, ?block)"
    unfolding transform_inverts_def by metis
  from cap have "40 + ?P \<le> length cbuf" by simp
  then obtain s0 g1 s2 s3 s4 g2 region rest where
    cbuf: "cbuf = s0 @ g1 @ s2 @ s3 @ s4 @ g2 @ region @ rest"
    and lens: "length s0 = 4" "length g1 = 4" "length s2 = 8" "length s3 = 16"
      "length s4 = 4" "length g2 = 4" "length region = ?P"
    by (rule buffer_segments)
  let ?c = "bytes_of_u32 0xDEADBEEF @ g1 @ bytes_of_size len @ bytes_of_quaternion k
            @ bytes_of_u32 (compute_checksum pt len) @ g2 @ out @ rest"
  have enc: "hypercomplex_encrypt_data T (Some pt) len (Some k) (Some cbuf) (Some cap)
      = Some (Success, Some ?c, Some ?total)"
    unfolding cbuf
    using encrypt_data_layout [where T = T and k = k and len = len and cap = cap and pt = pt
        and ?s0.0 = s0 and ?g1.0 = g1 and ?s2.0 = s2 and ?s3.0 = s3 and ?s4.0 = s4
        and ?g2.0 = g2 and region = region and rest = rest and r = HC_SUCCESS and out = out]
      valid fits cap(1) src lens T1 lout
    by simp
  have tot: "unat ?total = 40 + ?P"
    using fits by (rule unat_total_size)
  let ?p' = "?block @ drop ?P pbuf"
  have lenle: "len \<le> pl"
    using ge pl(1) by (simp add: word_le_nat_alt)
  have dec0: "hypercomplex_decrypt_data T (Some ?c) ?total (Some k) (Some pbuf) (Some pl)
      = Some (if compute_checksum (?block @ drop (length out) pbuf)
                  (size_of_bytes (bytes_of_size len))
                \<noteq> u32_of_bytes (bytes_of_u32 (compute_checksum pt len))
              then IntegrityMismatch else Success,
              Some (?block @ drop (length out) pbuf), Some (size_of_bytes (bytes_of_size len)))"
    using decrypt_data_layout [where m = "bytes_of_u32 0xDEADBEEF" and ?g1.0 = g1
        and lb = "bytes_of_size len" and kb = "bytes_of_quaternion k"
        and cb = "bytes_of_u32 (compute_checksum pt len)" and ?g2.0 = g2 and payload = out
        and cl = ?total and pl = pl and p = pbuf and T = T and r = HC_SUCCESS
        and out = ?block and rest = rest and k = k]
      lens tot lout lenle pl ge T2 lblock
    by simp
  have tk: "take (unat len) ?p' = ?src"
    using src by simp
  have "compute_checksum ?p' len = checksum_fold (take (unat len) ?p')"
    using src ge by (intro compute_checksum_fold) simp
  also have "\<dots> = checksum_fold (take (unat len) pt)"
    by (simp only: tk)
  also have "\<dots> = compute_checksum pt len"
    using src by (rule compute_checksum_fold [symmetric])
  finally have ck: "compute_checksum ?p' len = compute_checksum pt len" .
  have dec: "hypercomplex_decrypt_data T (Some ?c) ?total (Some k) (Some pbuf) (Some pl)
      = Some (Success, Some ?p', Some len)"
    using dec0 ck by (simp add: lout)
  show ?thesis
    using enc tot dec tk by blast
qed

text \<open>
  C1. The round trip does not hold for every output capacity that the decoder accepts.
  \<open>hypercomplex_decrypt_data\<close> compares \<open>*plain_length\<close> with the recorded original length
  only, which is also the size it reports as required when the capacity is too small,
  and then copies the whole padded block into the output buffer. So for a container
  produced by a successful \<open>hypercomplex_encrypt_data\<close>, under any key (a key left by
  \<open>quaternion_generate_key\<close> included), with a capacity of at least the original length and
  an output buffer shorter than the padded length, the copy runs past the end of the
  output buffer: the call has undefined behaviour, whatever the transform, and returns
  neither the plaintext nor an error.
\<close>

theorem decrypt_output_overrun:
  fixes len cap pl n :: size_t
  assumes enc: "hypercomplex_encrypt_data T (Some pt) len key (Some cbuf) (Some cap)
      = Some (Success, Some c, Some n)"
    and fits: "40 + padded16 (unat len) < 2 ^ 64"
    and cap: "len \<le> pl"
    and short: "length pbuf < padded16 (unat len)"
  shows "hypercomplex_decrypt_data T' (Some c) n (Some k') (Some pbuf) (Some pl) = None"
proof -
  from enc obtain k where key: "key = Some k"
    by (cases key) (simp_all add: hypercomplex_encrypt_data_def)
  note h = encrypt_data_success_header [OF enc [unfolded key] fits]
  have hdr: "header_size \<le> n"
    using h(1) by (simp add: word_le_nat_alt header_size_def)
  have buf: "unat n \<le> length c"
    using h(1,2,3) by simp
  have magic: "u32_of_bytes (take 4 c) = 0xDEADBEEF"
    by (simp add: h(4))
  have cap': "size_of_bytes (take 8 (drop 8 c)) \<le> pl"
    using cap by (simp add: h(5))
  have short': "length pbuf < unat n - 40"
    using short h(1) by simp
  show ?thesis
    using hdr buf magic cap' short' by (rule decrypt_data_overrun)
qed

text \<open>
  The one-byte plaintext \<open>0x41\<close>: encoding gives \<open>sample_container\<close>; decoding with capacity
  0 reports that 1 byte is required; decoding into a buffer of 1 byte with capacity 1
  overruns it.
\<close>

theorem decrypt_output_overrun_witness:
  "hypercomplex_encrypt_data copy_transform (Some [0x41]) 1 (Some quaternion_identity)
      (Some (replicate 56 0)) (Some 56) = Some (Success, Some sample_container, Some 56)
   \<and> hypercomplex_decrypt_data copy_transform (Some sample_container) 56
        (Some quaternion_identity) (Some [0]) (Some 0) = Some (BufferTooSmall, Some [0], Some 1)
   \<and> hypercomplex_decrypt_data copy_transform (Some sample_container) 56
        (Some quaternion_identity) (Some [0]) (Some 1) = None"
proof -
  have enc: "hypercomplex_encrypt_data copy_transform (Some [0x41]) 1 (Some quaternion_identity)
      (Some (replicate 56 0)) (Some 56) = Some (Success, Some sample_container, Some 56)"
    by code_simp
  have req: "hypercomplex_decrypt_data copy_transform (Some sample_container) 56
        (Some quaternion_identity) (Some [0]) (Some 0) = Some (BufferTooSmall, Some [0], Some 1)"
    by code_simp
  have fits: "40 + padded16 (unat (1 :: size_t)) < 2 ^ 64"
    by (simp add: padded16_eq)
  have short: "length [0 :: byte] < padded16 (unat (1 :: size_t))"
    by (simp add: padded16_eq)
  show ?thesis
    using decrypt_output_overrun [where T' = copy_transform and k' = quaternion_identity and pl = 1,
        OF enc fits _ short] enc req
    by simp
qed

section \<open>Decoding does not use the key argument\<close>

text \<open>
  C3. The result of \<open>hypercomplex_decrypt_data\<close> does not depend on the key argument, as
  long as it is not null: the function only tests it against \<open>NULL\<close> and runs the
  transform with the conjugate of the key stored in the header. So for any container, any
  two keys \<open>k1\<close> and \<open>k2\<close> give the same status, output buffer and length.
\<close>

theorem decrypt_ignores_key_argument:
  "hypercomplex_decrypt_data T c cl (Some k1) p pl = hypercomplex_decrypt_data T c cl (Some k2) p pl"
  by (simp add: hypercomplex_decrypt_data_def)

section \<open>Capacity check of the encoder\<close>

text \<open>
  C5. For a valid key, a plaintext of length \<open>len\<close> and a capacity strictly less than
  \<open>header_size + padded(len)\<close>, where \<open>padded(len)\<close> is the smallest multiple of 16 that
  is at least \<open>len\<close>, \<open>hypercomplex_encrypt_data\<close> takes the too-small-buffer return, sets
  \<open>*cipher_length\<close> to exactly \<open>header_size + padded(len)\<close> and leaves the output buffer as
  it was. The container size has to be representable in \<open>size_t\<close>.
\<close>

theorem encrypt_buffer_too_small:
  fixes len cap :: size_t
  assumes valid: "quaternion_is_valid (Some k)"
    and fits: "40 + padded16 (unat len) < 2 ^ 64"
    and small: "unat cap < 40 + padded16 (unat len)"
  shows "hypercomplex_encrypt_data T (Some pt) len (Some k) (Some buf) (Some cap)
    = Some (BufferTooSmall, Some buf, Some (of_nat (40 + padded16 (unat len))))"
proof -
  let ?total = "header_size + ((len + 15) div 16) * 16"
  have tot: "unat ?total = 40 + padded16 (unat len)"
    using fits by (rule unat_total_size)
  then have "cap < ?total"
    using small by (simp add: word_less_nat_alt)
  with valid have "hypercomplex_encrypt_data T (Some pt) len (Some k) (Some buf) (Some cap)
      = Some (BufferTooSmall, Some buf, Some ?total)"
    by (rule encrypt_data_too_small)
  moreover have "?total = of_nat (unat ?total)"
    by simp
  then have "?total = of_nat (40 + padded16 (unat len))"
    by (simp only: tot)
  ultimately show ?thesis
    by simp
qed

theorem encrypt_buffer_too_small_witness:
  "quaternion_is_valid (Some quaternion_identity)
   \<and> hypercomplex_encrypt_data copy_transform (Some [0x48, 0x69]) 2 (Some quaternion_identity)
        (Some (replicate 55 7)) (Some 55)
      = Some (BufferTooSmall, Some (replicate 55 7), Some 56)"
  using encrypt_buffer_too_small [of quaternion_identity 2 55 copy_transform "[0x48, 0x69]"
      "replicate 55 7"]
  by (simp add: padded16_eq quaternion_identity_valid)

section \<open>The emitted container\<close>

text \<open>
  C6. After every successful \<open>hypercomplex_encrypt_data\<close> of a plaintext of length
  \<open>len\<close>, \<open>*cipher_length\<close> is \<open>header_size + padded(len)\<close>, with \<open>padded(len)\<close> the smallest
  multiple of 16 that is at least \<open>len\<close> (so \<open>len\<close> itself when it is a multiple of 16),
  and the bytes after the header are what the transform returned for the plaintext
  followed by \<open>padded(len) - len\<close> zero bytes: the pad bytes are zero when the transform
  is applied.
\<close>

theorem encrypt_success_container:
  fixes len cap n :: size_t
  assumes enc: "hypercomplex_encrypt_data T (Some pt) len (Some k) (Some buf) (Some cap)
      = Some (Success, Some c, Some n)"
    and fits: "40 + padded16 (unat len) < 2 ^ 64"
  shows "unat n = 40 + padded16 (unat len)
    \<and> (16 dvd unat len \<longrightarrow> padded16 (unat len) = unat len)
    \<and> (\<exists>out. T (take (unat len) pt @ replicate (padded16 (unat len) - unat len) 0) k
               = (HC_SUCCESS, out)
           \<and> take (length out) (drop 40 c) = out)"
proof -
  let ?P = "padded16 (unat len)"
  let ?block = "take (unat len) pt @ replicate (?P - unat len) (0 :: byte)"
  let ?total = "header_size + ((len + 15) div 16) * 16"
  from enc fits have valid: "quaternion_is_valid (Some k)" and cap: "40 + ?P \<le> unat cap"
    and src: "unat len \<le> length pt" and room: "40 + ?P \<le> length buf"
    using encrypt_data_success_bounds by blast+
  obtain s0 g1 s2 s3 s4 g2 region rest where
    buf: "buf = s0 @ g1 @ s2 @ s3 @ s4 @ g2 @ region @ rest"
    and lens: "length s0 = 4" "length g1 = 4" "length s2 = 8" "length s3 = 16"
      "length s4 = 4" "length g2 = 4" "length region = ?P"
    using room by (rule buffer_segments)
  obtain r out where T: "T ?block k = (r, out)"
    by (cases "T ?block k")
  let ?b6 = "bytes_of_u32 0xDEADBEEF @ g1 @ bytes_of_size len @ bytes_of_quaternion k
      @ bytes_of_u32 (compute_checksum pt len) @ g2 @ ?block @ rest"
  have run: "store 40 out ?b6 \<bind>
      (\<lambda>b7. if r = HC_SUCCESS then Some (Success, Some b7, Some ?total)
            else Some (TransformFailed r, Some b7, Some cap))
      = Some (Success, Some c, Some n)"
    using encrypt_data_run [where T = T and k = k and len = len and cap = cap and pt = pt
        and ?s0.0 = s0 and ?g1.0 = g1 and ?s2.0 = s2 and ?s3.0 = s3 and ?s4.0 = s4
        and ?g2.0 = g2 and region = region and rest = rest]
      valid fits cap src lens T enc
    by (simp add: buf)
  then have st: "store 40 out ?b6 = Some c" and r: "r = HC_SUCCESS" and n: "n = ?total"
    by (auto split: bind_splits if_splits)
  from st have "take (length out) (drop 40 c) = out"
    by (rule store_readback)
  moreover have "unat ?total = 40 + ?P"
    using fits by (rule unat_total_size)
  moreover have "16 dvd unat len \<longrightarrow> padded16 (unat len) = unat len"
    by (auto simp add: padded16_eq)
  ultimately show ?thesis
    using T r n by simp
qed

theorem encrypt_success_container_witness:
  "(\<exists>c. hypercomplex_encrypt_data copy_transform (Some [0x48, 0x69]) 2 (Some quaternion_identity)
          (Some (replicate 56 7)) (Some 56) = Some (Success, Some c, Some 56)
       \<and> take 16 (drop 40 c) = [0x48, 0x69] @ replicate 14 0)
   \<and> (\<exists>c n. hypercomplex_encrypt_data copy_transform (Some []) 0 (Some quaternion_identity)
          (Some (replicate 40 7)) (Some 40) = Some (Success, Some c, Some n)
       \<and> unat n = 40 \<and> padded16 0 = 0)"
proof -
  have enc: "hypercomplex_encrypt_data copy_transform (Some [0x48, 0x69]) 2
      (Some quaternion_identity) (Some (replicate 56 7)) (Some 56)
      = Some (Success,
          Some ([0xEF, 0xBE, 0xAD, 0xDE, 7, 7, 7, 7, 2, 0, 0, 0, 0, 0, 0, 0,
                 0, 0, 0x80, 0x3F, 0, 0, 0, 0, 0, 0, 0, 0, 0, 0, 0, 0,
                 0xF9, 0, 0, 0, 7, 7, 7, 7, 0x48, 0x69] @ replicate 14 0),
          Some 56)"
    by code_simp
  have enc0: "hypercomplex_encrypt_data copy_transform (Some []) 0
      (Some quaternion_identity) (Some (replicate 40 7)) (Some 40)
      = Some (Success,
          Some [0xEF, 0xBE, 0xAD, 0xDE, 7, 7, 7, 7, 0, 0, 0, 0, 0, 0, 0, 0,
                0, 0, 0x80, 0x3F, 0, 0, 0, 0, 0, 0, 0, 0, 0, 0, 0, 0,
                0, 0, 0, 0, 7, 7, 7, 7],
          Some 40)"
    by code_simp
  have fits0: "40 + padded16 (unat (0 :: size_t)) < 2 ^ 64"
    by (simp add: padded16_eq)
  show ?thesis
    using encrypt_success_container [OF enc] enc encrypt_success_container [OF enc0 fits0] enc0
    by (simp add: padded16_eq copy_transform_def)
qed

section \<open>Malformed containers\<close>

text \<open>
  C7. If \<open>cipher_length\<close> is less than the header size, or the magic field of the buffer
  is not \<open>0xDEADBEEF\<close>, \<open>hypercomplex_decrypt_data\<close> takes a malformed-container return;
  the output buffer and \<open>*plain_length\<close> are as before the call, whatever the transform
  is, so the return happens before any transform or checksum computation.
\<close>

theorem decrypt_malformed:
  assumes "cl < header_size \<or> (4 \<le> length c \<and> u32_of_bytes (take 4 c) \<noteq> 0xDEADBEEF)"
  shows "hypercomplex_decrypt_data T (Some c) cl (Some k) (Some p) (Some pl)
    = Some (Malformed, Some p, Some pl)"
  using assms by (rule decrypt_data_bad_header)

theorem decrypt_malformed_witness:
  "hypercomplex_decrypt_data copy_transform (Some [0xEF, 0xBE, 0xAD]) 3 (Some quaternion_identity)
      (Some [9, 9]) (Some 2) = Some (Malformed, Some [9, 9], Some 2)
   \<and> hypercomplex_decrypt_data copy_transform (Some (sample_container[0 := 0])) 56
      (Some quaternion_identity) (Some (replicate 16 9)) (Some 16)
     = Some (Malformed, Some (replicate 16 9), Some 16)"
  using decrypt_malformed [of 3 "[0xEF, 0xBE, 0xAD]" copy_transform quaternion_identity "[9, 9]" 2]
    decrypt_malformed [of 56 "sample_container[0 := 0]" copy_transform quaternion_identity
      "replicate 16 9" 16]
  by (simp add: header_size_def sample_container_def u32_of_bytes_def)

section \<open>Checksum mismatch\<close>

text \<open>
  C8. When \<open>hypercomplex_decrypt_data\<close> gets as far as the checksum (header present with
  the right magic, capacity at least the recorded length, transform successful with an
  output as long as its input) and the checksum it recomputes over the first
  \<open>header->length\<close> bytes of the output differs from the one stored in the header, it takes
  the integrity-mismatch return: \<open>*plain_length\<close> is the recorded original length, the
  output buffer holds the recovered bytes, and the return code is
  \<open>HC_ERROR_INVALID_DATA\<close>, never \<open>HC_SUCCESS\<close>.
\<close>

theorem decrypt_integrity_mismatch:
  fixes cl pl :: size_t
  assumes buf: "unat cl \<le> length c"
    and hdr: "header_size \<le> cl"
    and magic: "u32_of_bytes (take 4 c) = 0xDEADBEEF"
    and cap: "size_of_bytes (take 8 (drop 8 c)) \<le> pl"
    and room: "unat cl - 40 \<le> length p" "unat pl \<le> length p"
    and T: "T (take (unat cl - 40) (drop 40 c))
              (quaternion_conjugate (quaternion_of_bytes (take 16 (drop 16 c))))
            = (HC_SUCCESS, out)"
    and out: "length out = unat cl - 40"
    and bad: "compute_checksum (out @ drop (length out) p) (size_of_bytes (take 8 (drop 8 c)))
              \<noteq> u32_of_bytes (take 4 (drop 32 c))"
  shows "hypercomplex_decrypt_data T (Some c) cl (Some k) (Some p) (Some pl)
      = Some (IntegrityMismatch, Some (out @ drop (length out) p),
              Some (size_of_bytes (take 8 (drop 8 c))))
    \<and> hypercomplex_decrypt_data_rc T (Some c) cl (Some k) (Some p) (Some pl)
      = Some HC_ERROR_INVALID_DATA
    \<and> HC_ERROR_INVALID_DATA \<noteq> HC_SUCCESS"
proof -
  have "hypercomplex_decrypt_data T (Some c) cl (Some k) (Some p) (Some pl)
      = Some (IntegrityMismatch, Some (out @ drop (length out) p),
              Some (size_of_bytes (take 8 (drop 8 c))))"
    using buf hdr magic cap room T out bad by (rule decrypt_data_checksum_mismatch)
  then show ?thesis
    by (simp add: hypercomplex_decrypt_data_rc_def HC_ERROR_INVALID_DATA_def HC_SUCCESS_def)
qed

theorem decrypt_integrity_mismatch_witness:
  "hypercomplex_decrypt_data copy_transform (Some (sample_container[32 := 0x40])) 56
      (Some quaternion_identity) (Some (replicate 16 0)) (Some 16)
     = Some (IntegrityMismatch, Some (0x41 # replicate 15 0), Some 1)"
proof -
  let ?c = "sample_container[32 := 0x40]"
  have c: "?c = [0xEF, 0xBE, 0xAD, 0xDE, 0, 0, 0, 0, 1, 0, 0, 0, 0, 0, 0, 0,
      0, 0, 0x80, 0x3F, 0, 0, 0, 0, 0, 0, 0, 0, 0, 0, 0, 0,
      0x40, 0, 0, 0, 0, 0, 0, 0, 0x41, 0, 0, 0, 0, 0, 0, 0, 0, 0, 0, 0, 0, 0, 0, 0]"
    by (simp add: sample_container_def)
  have h1: "unat (56 :: size_t) \<le> length ?c"
    by (simp add: sample_container_def)
  have h2: "header_size \<le> 56"
    by (simp add: header_size_def)
  have h3: "u32_of_bytes (take 4 ?c) = 0xDEADBEEF"
    unfolding c by code_simp
  have len: "size_of_bytes (take 8 (drop 8 ?c)) = 1"
    unfolding c by code_simp
  have h4: "size_of_bytes (take 8 (drop 8 ?c)) \<le> (16 :: size_t)"
    unfolding len by simp
  have h5: "unat (56 :: size_t) - 40 \<le> length (replicate 16 (0 :: byte))"
    "unat (16 :: size_t) \<le> length (replicate 16 (0 :: byte))"
    by simp_all
  have pay: "take (unat (56 :: size_t) - 40) (drop 40 ?c) = 0x41 # replicate 15 0"
    unfolding c by code_simp
  have h6: "copy_transform (take (unat (56 :: size_t) - 40) (drop 40 ?c))
      (quaternion_conjugate (quaternion_of_bytes (take 16 (drop 16 ?c))))
      = (HC_SUCCESS, 0x41 # replicate 15 0)"
    unfolding pay by (simp add: copy_transform_def)
  have h7: "length (0x41 # replicate 15 (0 :: byte)) = unat (56 :: size_t) - 40"
    by simp
  have h8: "compute_checksum ((0x41 # replicate 15 0) @ drop (length (0x41 # replicate 15 (0 :: byte)))
        (replicate 16 0)) (size_of_bytes (take 8 (drop 8 ?c)))
      \<noteq> u32_of_bytes (take 4 (drop 32 ?c))"
    unfolding c by code_simp
  show ?thesis
    using decrypt_integrity_mismatch [where T = copy_transform and c = ?c and cl = 56
        and pl = 16 and p = "replicate 16 0" and out = "0x41 # replicate 15 0"
        and k = quaternion_identity, OF h1 h2 h3 h4 h5 h6 h7 h8]
    by (simp add: len)
qed

section \<open>Single-byte changes to a container\<close>

text \<open>
  C9, as stated, fails. In \<open>sample_container\<close>, the container written for the plaintext
  \<open>0x41\<close>, the byte at offset 4 is alignment padding of the header and the byte at offset
  41 is a pad byte of the block: changing either of them to \<open>0xFF\<close> still decodes with
  \<open>Success\<close> and the original length 1.
\<close>

theorem flipped_byte_undetected:
  "hypercomplex_encrypt_data copy_transform (Some [0x41]) 1 (Some quaternion_identity)
      (Some (replicate 56 0)) (Some 56) = Some (Success, Some sample_container, Some 56)
   \<and> sample_container ! 4 \<noteq> 0xFF
   \<and> hypercomplex_decrypt_data copy_transform (Some (sample_container[4 := 0xFF])) 56
        (Some quaternion_identity) (Some (replicate 16 0)) (Some 16)
      = Some (Success, Some (0x41 # replicate 15 0), Some 1)
   \<and> sample_container ! 41 \<noteq> 0xFF
   \<and> hypercomplex_decrypt_data copy_transform (Some (sample_container[41 := 0xFF])) 56
        (Some quaternion_identity) (Some (replicate 16 0)) (Some 16)
      = Some (Success, Some (0x41 # 0xFF # replicate 14 0), Some 1)"
  by code_simp

text \<open>
  C9, amended. For a container produced by a successful \<open>hypercomplex_encrypt_data\<close> (valid
  key, transform satisfying its contract at the key, decoding capacity at least the
  padded length), changing any single byte of the magic field (offsets 0 to 3) makes
  \<open>hypercomplex_decrypt_data\<close> take the malformed-container return, and changing any single
  byte of the stored checksum (offsets 32 to 35) makes it take the integrity-mismatch
  return. Nothing is claimed for the other offsets.
\<close>

theorem flipped_magic_or_checksum_detected:
  fixes len cap pl n :: size_t
  assumes valid: "quaternion_is_valid (Some k)"
    and contract: "transform_inverts T k"
    and fits: "40 + padded16 (unat len) < 2 ^ 64"
    and src: "unat len \<le> length pt"
    and cap: "40 + padded16 (unat len) \<le> unat cap" "unat cap \<le> length cbuf"
    and pl: "padded16 (unat len) \<le> unat pl" "unat pl \<le> length pbuf"
    and enc: "hypercomplex_encrypt_data T (Some pt) len (Some k) (Some cbuf) (Some cap)
        = Some (Success, Some c, Some n)"
    and flip: "v \<noteq> c ! i"
    and field: "i < 4 \<or> (32 \<le> i \<and> i < 36)"
  shows "\<exists>p' n'. hypercomplex_decrypt_data T (Some (c[i := v])) n (Some k) (Some pbuf) (Some pl)
      = Some (if i < 4 then Malformed else IntegrityMismatch, p', n')"
proof -
  let ?P = "padded16 (unat len)"
  let ?src = "take (unat len) pt"
  let ?block = "?src @ replicate (?P - unat len) (0 :: byte)"
  let ?total = "header_size + ((len + 15) div 16) * 16"
  let ?M = "bytes_of_u32 0xDEADBEEF"
  let ?L = "bytes_of_size len"
  let ?K = "bytes_of_quaternion k"
  let ?C = "bytes_of_u32 (compute_checksum pt len)"
  have ge: "unat len \<le> ?P" by (rule padded16_ge)
  have lblock: "length ?block = ?P" using src ge by simp
  have "16 dvd ?P" by (simp add: padded16_eq)
  with contract lblock obtain out where
    T1: "T ?block k = (HC_SUCCESS, out)" and lout: "length out = ?P"
    and T2: "T out (quaternion_conjugate k) = (HC_SUCCESS, ?block)"
    unfolding transform_inverts_def by metis
  from cap have "40 + ?P \<le> length cbuf" by simp
  then obtain s0 g1 s2 s3 s4 g2 region rest where
    cbuf: "cbuf = s0 @ g1 @ s2 @ s3 @ s4 @ g2 @ region @ rest"
    and lens: "length s0 = 4" "length g1 = 4" "length s2 = 8" "length s3 = 16"
      "length s4 = 4" "length g2 = 4" "length region = ?P"
    by (rule buffer_segments)
  have "hypercomplex_encrypt_data T (Some pt) len (Some k) (Some cbuf) (Some cap)
      = Some (Success, Some (?M @ g1 @ ?L @ ?K @ ?C @ g2 @ out @ rest), Some ?total)"
    unfolding cbuf
    using encrypt_data_layout [where T = T and k = k and len = len and cap = cap and pt = pt
        and ?s0.0 = s0 and ?g1.0 = g1 and ?s2.0 = s2 and ?s3.0 = s3 and ?s4.0 = s4
        and ?g2.0 = g2 and region = region and rest = rest and r = HC_SUCCESS and out = out]
      valid fits cap(1) src lens T1 lout
    by simp
  with enc have c: "c = ?M @ g1 @ ?L @ ?K @ ?C @ g2 @ out @ rest" and n: "n = ?total"
    by simp_all
  have tot: "unat ?total = 40 + ?P"
    using fits by (rule unat_total_size)
  from field show ?thesis
  proof
    assume i: "i < 4"
    then have upd: "c[i := v] = ?M[i := v] @ g1 @ ?L @ ?K @ ?C @ g2 @ out @ rest"
      unfolding c using update_segment [where a = "[]" and off = 0 and i = i and d = ?M and v = v
          and r = "g1 @ ?L @ ?K @ ?C @ g2 @ out @ rest"]
      by simp
    have "c ! i = ?M ! i"
      unfolding c using i nth_segment [where a = "[]" and off = 0 and i = i and d = ?M
          and r = "g1 @ ?L @ ?K @ ?C @ g2 @ out @ rest"]
      by simp
    with flip have "v \<noteq> ?M ! i"
      by simp
    then have "?M[i := v] \<noteq> ?M"
      using i by (intro list_update_differs) simp_all
    then have "u32_of_bytes (?M[i := v]) \<noteq> u32_of_bytes ?M"
      using u32_of_bytes_inj [of "?M[i := v]" ?M] by auto
    then have "u32_of_bytes (take 4 (c[i := v])) \<noteq> 0xDEADBEEF"
      unfolding upd by simp
    moreover have "4 \<le> length (c[i := v])"
      unfolding c by simp
    ultimately have "hypercomplex_decrypt_data T (Some (c[i := v])) n (Some k) (Some pbuf) (Some pl)
        = Some (Malformed, Some pbuf, Some pl)"
      by (intro decrypt_data_bad_header) simp
    with i show ?thesis by simp
  next
    assume i: "32 \<le> i \<and> i < 36"
    then have upd: "c[i := v] = ?M @ g1 @ ?L @ ?K @ ?C[i - 32 := v] @ g2 @ out @ rest"
      unfolding c using lens update_segment [where a = "?M @ g1 @ ?L @ ?K" and off = 32 and i = i and d = ?C and v = v
          and r = "g2 @ out @ rest"]
      by simp
    have "c ! i = ?C ! (i - 32)"
      unfolding c using i lens nth_segment [where a = "?M @ g1 @ ?L @ ?K" and off = 32 and i = i and d = ?C
          and r = "g2 @ out @ rest"]
      by simp
    with flip have "v \<noteq> ?C ! (i - 32)"
      by simp
    moreover have "i - 32 < length ?C"
      using i by simp linarith
    ultimately have "?C[i - 32 := v] \<noteq> ?C"
      by (intro list_update_differs)
    then have ne: "u32_of_bytes (?C[i - 32 := v]) \<noteq> compute_checksum pt len"
      using u32_of_bytes_inj [of "?C[i - 32 := v]" ?C] by auto
    let ?p' = "?block @ drop ?P pbuf"
    have lenle: "len \<le> pl"
      using ge pl(1) by (simp add: word_le_nat_alt)
    have tk: "take (unat len) ?p' = ?src"
      using src by simp
    have "compute_checksum ?p' len = checksum_fold (take (unat len) ?p')"
      using src ge by (intro compute_checksum_fold) simp
    also have "\<dots> = checksum_fold (take (unat len) pt)"
      by (simp only: tk)
    also have "\<dots> = compute_checksum pt len"
      using src by (rule compute_checksum_fold [symmetric])
    finally have ck: "compute_checksum ?p' len = compute_checksum pt len" .
    have "hypercomplex_decrypt_data T (Some (c[i := v])) n (Some k) (Some pbuf) (Some pl)
        = Some (IntegrityMismatch, Some ?p', Some len)"
      unfolding upd n
      using decrypt_data_layout [where m = ?M and ?g1.0 = g1 and lb = ?L and kb = ?K
          and cb = "?C[i - 32 := v]" and ?g2.0 = g2 and payload = out
          and cl = ?total and pl = pl and p = pbuf and T = T and r = HC_SUCCESS
          and out = ?block and rest = rest and k = k]
        lens tot lout lenle pl ge T2 lblock ne ck
      by simp
    with i show ?thesis by simp
  qed
qed

theorem flipped_magic_or_checksum_detected_witness:
  "(\<exists>p' n'. hypercomplex_decrypt_data copy_transform (Some (sample_container[32 := 0x40])) 56
      (Some quaternion_identity) (Some (replicate 16 0)) (Some 16)
     = Some (IntegrityMismatch, p', n'))
   \<and> (\<exists>p' n'. hypercomplex_decrypt_data copy_transform (Some (sample_container[0 := 0xEE])) 56
      (Some quaternion_identity) (Some (replicate 16 0)) (Some 16)
     = Some (Malformed, p', n'))"
proof -
  have enc: "hypercomplex_encrypt_data copy_transform (Some [0x41]) 1 (Some quaternion_identity)
      (Some (replicate 56 0)) (Some 56) = Some (Success, Some sample_container, Some 56)"
    by code_simp
  have flip: "(0x40 :: byte) \<noteq> sample_container ! 32"
    by (simp add: sample_container_def)
  have flip0: "(0xEE :: byte) \<noteq> sample_container ! 0"
    by (simp add: sample_container_def)
  show ?thesis
    using flipped_magic_or_checksum_detected [where T = copy_transform and k = quaternion_identity
        and len = 1 and pt = "[0x41]" and cap = 56 and cbuf = "replicate 56 0" and pl = 16
        and pbuf = "replicate 16 0" and c = sample_container and n = 56 and v = "0x40" and i = 32,
        OF quaternion_identity_valid copy_transform_inverts _ _ _ _ _ _ enc flip]
      flipped_magic_or_checksum_detected [where T = copy_transform and k = quaternion_identity
        and len = 1 and pt = "[0x41]" and cap = 56 and cbuf = "replicate 56 0" and pl = 16
        and pbuf = "replicate 16 0" and c = sample_container and n = 56 and v = "0xEE" and i = 0,
        OF quaternion_identity_valid copy_transform_inverts _ _ _ _ _ _ enc flip0]
    by (simp add: padded16_eq)
qed

section \<open>Return codes\<close>

text \<open>
  C10. The failure causes of the codec all return the one code
  \<open>HC_ERROR_INVALID_DATA = -3\<close>: an invalid key and a too-small buffer in
  \<open>hypercomplex_encrypt_data\<close>; a container that is too short or has a wrong magic, a
  too-small buffer and a checksum mismatch in \<open>hypercomplex_decrypt_data\<close>. Each cause is
  given by the condition on the arguments that the source tests, and leads to the return
  of that cause with the return value -3, so the return value does not tell the causes
  apart. The length out-parameter does for a too-small buffer: there it is set to the
  required size, above the given capacity, while an invalid key and a malformed container
  leave it unchanged. Apart from \<open>HC_ERROR_INVALID_DATA\<close> the two functions return only
  \<open>HC_SUCCESS\<close>, \<open>HC_ERROR_NULL_PTR\<close> and \<open>HC_ERROR_DIVIDE_ZERO\<close>, given that
  \<open>hypercomplex_encrypt\<close>, whose return value they hand through, returns only codes of the
  header file.
\<close>

theorem invalid_data_code_shared:
  fixes len cap cl pl :: size_t
  shows
  "(\<not> quaternion_is_valid (Some k) \<longrightarrow>
      hypercomplex_encrypt_data T (Some pt) len (Some k) (Some buf) (Some cap)
        = Some (InvalidKey, Some buf, Some cap)
      \<and> hypercomplex_encrypt_data_rc T (Some pt) len (Some k) (Some buf) (Some cap)
        = Some (- 3))
   \<and> (quaternion_is_valid (Some k) \<and> cap < header_size + ((len + 15) div 16) * 16 \<longrightarrow>
      hypercomplex_encrypt_data T (Some pt) len (Some k) (Some buf) (Some cap)
        = Some (BufferTooSmall, Some buf, Some (header_size + ((len + 15) div 16) * 16))
      \<and> hypercomplex_encrypt_data_rc T (Some pt) len (Some k) (Some buf) (Some cap)
        = Some (- 3))
   \<and> (cl < header_size \<or> (4 \<le> length c \<and> u32_of_bytes (take 4 c) \<noteq> 0xDEADBEEF) \<longrightarrow>
      hypercomplex_decrypt_data T (Some c) cl (Some k') (Some p) (Some pl)
        = Some (Malformed, Some p, Some pl)
      \<and> hypercomplex_decrypt_data_rc T (Some c) cl (Some k') (Some p) (Some pl)
        = Some (- 3))
   \<and> (header_size \<le> cl \<and> unat cl \<le> length c \<and> u32_of_bytes (take 4 c) = 0xDEADBEEF
        \<and> pl < size_of_bytes (take 8 (drop 8 c)) \<longrightarrow>
      hypercomplex_decrypt_data T (Some c) cl (Some k') (Some p) (Some pl)
        = Some (BufferTooSmall, Some p, Some (size_of_bytes (take 8 (drop 8 c))))
      \<and> hypercomplex_decrypt_data_rc T (Some c) cl (Some k') (Some p) (Some pl)
        = Some (- 3))
   \<and> (header_size \<le> cl \<and> unat cl \<le> length c \<and> u32_of_bytes (take 4 c) = 0xDEADBEEF
        \<and> size_of_bytes (take 8 (drop 8 c)) \<le> pl
        \<and> unat cl - 40 \<le> length p \<and> unat pl \<le> length p
        \<and> T (take (unat cl - 40) (drop 40 c))
             (quaternion_conjugate (quaternion_of_bytes (take 16 (drop 16 c))))
           = (HC_SUCCESS, out)
        \<and> length out = unat cl - 40
        \<and> compute_checksum (out @ drop (length out) p) (size_of_bytes (take 8 (drop 8 c)))
           \<noteq> u32_of_bytes (take 4 (drop 32 c)) \<longrightarrow>
      hypercomplex_decrypt_data T (Some c) cl (Some k') (Some p) (Some pl)
        = Some (IntegrityMismatch, Some (out @ drop (length out) p),
                Some (size_of_bytes (take 8 (drop 8 c))))
      \<and> hypercomplex_decrypt_data_rc T (Some c) cl (Some k') (Some p) (Some pl)
        = Some (- 3))
   \<and> HC_ERROR_INVALID_DATA = - 3
   \<and> ((\<forall>block q. fst (T block q)
          \<in> {HC_SUCCESS, HC_ERROR_NULL_PTR, HC_ERROR_DIVIDE_ZERO, HC_ERROR_INVALID_DATA}) \<longrightarrow>
       (\<forall>r. hypercomplex_encrypt_data_rc T pt' len' key' buf' cap' = Some r
             \<or> hypercomplex_decrypt_data_rc T c' cl' key'' p' pl' = Some r \<longrightarrow>
          r \<in> {HC_SUCCESS, HC_ERROR_NULL_PTR, HC_ERROR_DIVIDE_ZERO, HC_ERROR_INVALID_DATA}))"
proof (intro conjI impI allI)
  assume "\<not> quaternion_is_valid (Some k)"
  then have r: "hypercomplex_encrypt_data T (Some pt) len (Some k) (Some buf) (Some cap)
      = Some (InvalidKey, Some buf, Some cap)"
    by (rule encrypt_data_invalid_key)
  then show "hypercomplex_encrypt_data T (Some pt) len (Some k) (Some buf) (Some cap)
      = Some (InvalidKey, Some buf, Some cap)" .
  from r show "hypercomplex_encrypt_data_rc T (Some pt) len (Some k) (Some buf) (Some cap)
      = Some (- 3)"
    by (simp add: hypercomplex_encrypt_data_rc_def HC_ERROR_INVALID_DATA_def)
next
  assume "quaternion_is_valid (Some k) \<and> cap < header_size + ((len + 15) div 16) * 16"
  then have r: "hypercomplex_encrypt_data T (Some pt) len (Some k) (Some buf) (Some cap)
      = Some (BufferTooSmall, Some buf, Some (header_size + ((len + 15) div 16) * 16))"
    by (intro encrypt_data_too_small) simp_all
  then show "hypercomplex_encrypt_data T (Some pt) len (Some k) (Some buf) (Some cap)
      = Some (BufferTooSmall, Some buf, Some (header_size + ((len + 15) div 16) * 16))" .
  from r show "hypercomplex_encrypt_data_rc T (Some pt) len (Some k) (Some buf) (Some cap)
      = Some (- 3)"
    by (simp add: hypercomplex_encrypt_data_rc_def HC_ERROR_INVALID_DATA_def)
next
  assume "cl < header_size \<or> (4 \<le> length c \<and> u32_of_bytes (take 4 c) \<noteq> 0xDEADBEEF)"
  then have r: "hypercomplex_decrypt_data T (Some c) cl (Some k') (Some p) (Some pl)
      = Some (Malformed, Some p, Some pl)"
    by (rule decrypt_data_bad_header)
  then show "hypercomplex_decrypt_data T (Some c) cl (Some k') (Some p) (Some pl)
      = Some (Malformed, Some p, Some pl)" .
  from r show "hypercomplex_decrypt_data_rc T (Some c) cl (Some k') (Some p) (Some pl)
      = Some (- 3)"
    by (simp add: hypercomplex_decrypt_data_rc_def HC_ERROR_INVALID_DATA_def)
next
  assume "header_size \<le> cl \<and> unat cl \<le> length c \<and> u32_of_bytes (take 4 c) = 0xDEADBEEF
      \<and> pl < size_of_bytes (take 8 (drop 8 c))"
  then have r: "hypercomplex_decrypt_data T (Some c) cl (Some k') (Some p) (Some pl)
      = Some (BufferTooSmall, Some p, Some (size_of_bytes (take 8 (drop 8 c))))"
    by (intro decrypt_data_too_small) simp_all
  then show "hypercomplex_decrypt_data T (Some c) cl (Some k') (Some p) (Some pl)
      = Some (BufferTooSmall, Some p, Some (size_of_bytes (take 8 (drop 8 c))))" .
  from r show "hypercomplex_decrypt_data_rc T (Some c) cl (Some k') (Some p) (Some pl)
      = Some (- 3)"
    by (simp add: hypercomplex_decrypt_data_rc_def HC_ERROR_INVALID_DATA_def)
next
  assume h: "header_size \<le> cl \<and> unat cl \<le> length c \<and> u32_of_bytes (take 4 c) = 0xDEADBEEF
      \<and> size_of_bytes (take 8 (drop 8 c)) \<le> pl
      \<and> unat cl - 40 \<le> length p \<and> unat pl \<le> length p
      \<and> T (take (unat cl - 40) (drop 40 c))
           (quaternion_conjugate (quaternion_of_bytes (take 16 (drop 16 c))))
         = (HC_SUCCESS, out)
      \<and> length out = unat cl - 40
      \<and> compute_checksum (out @ drop (length out) p) (size_of_bytes (take 8 (drop 8 c)))
         \<noteq> u32_of_bytes (take 4 (drop 32 c))"
  have r: "hypercomplex_decrypt_data T (Some c) cl (Some k') (Some p) (Some pl)
      = Some (IntegrityMismatch, Some (out @ drop (length out) p),
              Some (size_of_bytes (take 8 (drop 8 c))))"
    by (rule decrypt_data_checksum_mismatch) (use h in blast)+
  then show "hypercomplex_decrypt_data T (Some c) cl (Some k') (Some p) (Some pl)
      = Some (IntegrityMismatch, Some (out @ drop (length out) p),
              Some (size_of_bytes (take 8 (drop 8 c))))" .
  from r show "hypercomplex_decrypt_data_rc T (Some c) cl (Some k') (Some p) (Some pl)
      = Some (- 3)"
    by (simp add: hypercomplex_decrypt_data_rc_def HC_ERROR_INVALID_DATA_def)
next
  show "HC_ERROR_INVALID_DATA = - 3"
    by (simp add: HC_ERROR_INVALID_DATA_def)
next
  fix r
  assume codes: "\<forall>block q. fst (T block q)
      \<in> {HC_SUCCESS, HC_ERROR_NULL_PTR, HC_ERROR_DIVIDE_ZERO, HC_ERROR_INVALID_DATA}"
    and run: "hypercomplex_encrypt_data_rc T pt' len' key' buf' cap' = Some r
      \<or> hypercomplex_decrypt_data_rc T c' cl' key'' p' pl' = Some r"
  from run show "r \<in> {HC_SUCCESS, HC_ERROR_NULL_PTR, HC_ERROR_DIVIDE_ZERO, HC_ERROR_INVALID_DATA}"
  proof
    assume "hypercomplex_encrypt_data_rc T pt' len' key' buf' cap' = Some r"
    then obtain st b l where res: "hypercomplex_encrypt_data T pt' len' key' buf' cap' = Some (st, b, l)"
      and r: "r = return_code st"
      by (auto simp add: hypercomplex_encrypt_data_rc_def)
    from encrypt_data_codes [OF res] consider
      "return_code st \<in> {HC_SUCCESS, HC_ERROR_NULL_PTR, HC_ERROR_INVALID_DATA}"
      | block q where "return_code st = fst (T block q)"
      by blast
    then show ?thesis
    proof cases
      case 1
      then show ?thesis unfolding r by blast
    next
      case 2
      then show ?thesis unfolding r using codes by simp
    qed
  next
    assume "hypercomplex_decrypt_data_rc T c' cl' key'' p' pl' = Some r"
    then obtain st b l where res: "hypercomplex_decrypt_data T c' cl' key'' p' pl' = Some (st, b, l)"
      and r: "r = return_code st"
      by (auto simp add: hypercomplex_decrypt_data_rc_def)
    from decrypt_data_codes [OF res] consider
      "return_code st \<in> {HC_SUCCESS, HC_ERROR_NULL_PTR, HC_ERROR_INVALID_DATA}"
      | block q where "return_code st = fst (T block q)"
      by blast
    then show ?thesis
    proof cases
      case 1
      then show ?thesis unfolding r by blast
    next
      case 2
      then show ?thesis unfolding r using codes by simp
    qed
  qed
qed

text \<open>
  One run for each cause, under the transform that copies its input: a key with an
  infinite component, a capacity of 55 where 56 are required, a container of three bytes,
  a capacity of 0 for \<open>sample_container\<close>, and \<open>sample_container\<close> with a changed checksum
  field; the unchanged \<open>sample_container\<close> decodes with \<open>HC_SUCCESS\<close>.
\<close>

theorem invalid_data_code_shared_witness:
  "hypercomplex_encrypt_data copy_transform (Some [0x41]) 1
      (Some \<lparr> q_w = 0x7F800000, q_x = 0, q_y = 0, q_z = 0 \<rparr>) (Some (replicate 56 0)) (Some 56)
     = Some (InvalidKey, Some (replicate 56 0), Some 56)
   \<and> hypercomplex_encrypt_data_rc copy_transform (Some [0x41]) 1
      (Some \<lparr> q_w = 0x7F800000, q_x = 0, q_y = 0, q_z = 0 \<rparr>) (Some (replicate 56 0)) (Some 56)
     = Some (- 3)
   \<and> hypercomplex_encrypt_data copy_transform (Some [0x41]) 1 (Some quaternion_identity)
      (Some (replicate 56 0)) (Some 55)
     = Some (BufferTooSmall, Some (replicate 56 0), Some 56)
   \<and> hypercomplex_encrypt_data_rc copy_transform (Some [0x41]) 1 (Some quaternion_identity)
      (Some (replicate 56 0)) (Some 55) = Some (- 3)
   \<and> hypercomplex_decrypt_data copy_transform (Some [0xEF, 0xBE, 0xAD]) 3
      (Some quaternion_identity) (Some [9, 9]) (Some 2) = Some (Malformed, Some [9, 9], Some 2)
   \<and> hypercomplex_decrypt_data_rc copy_transform (Some [0xEF, 0xBE, 0xAD]) 3
      (Some quaternion_identity) (Some [9, 9]) (Some 2) = Some (- 3)
   \<and> hypercomplex_decrypt_data copy_transform (Some sample_container) 56
      (Some quaternion_identity) (Some []) (Some 0) = Some (BufferTooSmall, Some [], Some 1)
   \<and> hypercomplex_decrypt_data_rc copy_transform (Some sample_container) 56
      (Some quaternion_identity) (Some []) (Some 0) = Some (- 3)
   \<and> hypercomplex_decrypt_data copy_transform (Some (sample_container[32 := 0x40])) 56
      (Some quaternion_identity) (Some (replicate 16 0)) (Some 16)
     = Some (IntegrityMismatch, Some (0x41 # replicate 15 0), Some 1)
   \<and> hypercomplex_decrypt_data_rc copy_transform (Some (sample_container[32 := 0x40])) 56
      (Some quaternion_identity) (Some (replicate 16 0)) (Some 16) = Some (- 3)
   \<and> hypercomplex_decrypt_data_rc copy_transform (Some sample_container) 56
      (Some quaternion_identity) (Some (replicate 16 0)) (Some 16) = Some 0
   \<and> (0 :: int) \<in> {HC_SUCCESS, HC_ERROR_NULL_PTR, HC_ERROR_DIVIDE_ZERO, HC_ERROR_INVALID_DATA}"
proof -
  let ?inf = "\<lparr> q_w = 0x7F800000, q_x = 0, q_y = 0, q_z = 0 \<rparr>"
  let ?c = "sample_container[32 := 0x40]"
  have nv: "\<not> quaternion_is_valid (Some ?inf)"
    by (simp add: quaternion_is_valid_def isfinite_def)
  have p1: "hypercomplex_encrypt_data copy_transform (Some [0x41]) 1 (Some ?inf)
        (Some (replicate 56 0)) (Some 56) = Some (InvalidKey, Some (replicate 56 0), Some 56)
      \<and> hypercomplex_encrypt_data_rc copy_transform (Some [0x41]) 1 (Some ?inf)
        (Some (replicate 56 0)) (Some 56) = Some (- 3)"
    using invalid_data_code_shared [where T = copy_transform and k = ?inf and pt = "[0x41]" and len = 1
        and buf = "replicate 56 0" and cap = 56, THEN conjunct1] nv
    by (simp only: simp_thms)
  have small: "quaternion_is_valid (Some quaternion_identity)
      \<and> (55 :: size_t) < header_size + ((1 + 15) div 16) * 16"
    by (simp add: quaternion_identity_valid header_size_def)
  have total: "header_size + (((1 :: size_t) + 15) div 16) * 16 = 56"
    by (simp add: header_size_def)
  have p2: "hypercomplex_encrypt_data copy_transform (Some [0x41]) 1 (Some quaternion_identity)
        (Some (replicate 56 0)) (Some 55) = Some (BufferTooSmall, Some (replicate 56 0), Some 56)
      \<and> hypercomplex_encrypt_data_rc copy_transform (Some [0x41]) 1 (Some quaternion_identity)
        (Some (replicate 56 0)) (Some 55) = Some (- 3)"
    using invalid_data_code_shared [where T = copy_transform and k = quaternion_identity and pt = "[0x41]"
        and len = 1 and buf = "replicate 56 0" and cap = 55, THEN conjunct2, THEN conjunct1]
      small
    by (simp only: simp_thms total)
  have short: "(3 :: size_t) < header_size
      \<or> (4 \<le> length [0xEF, 0xBE, 0xAD :: byte] \<and> u32_of_bytes (take 4 [0xEF, 0xBE, 0xAD]) \<noteq> 0xDEADBEEF)"
    by (simp add: header_size_def)
  have p3: "hypercomplex_decrypt_data copy_transform (Some [0xEF, 0xBE, 0xAD]) 3
        (Some quaternion_identity) (Some [9, 9]) (Some 2) = Some (Malformed, Some [9, 9], Some 2)
      \<and> hypercomplex_decrypt_data_rc copy_transform (Some [0xEF, 0xBE, 0xAD]) 3
        (Some quaternion_identity) (Some [9, 9]) (Some 2) = Some (- 3)"
    using invalid_data_code_shared [where T = copy_transform and c = "[0xEF, 0xBE, 0xAD]" and cl = 3
        and k' = quaternion_identity and p = "[9, 9]" and pl = 2,
        THEN conjunct2, THEN conjunct2, THEN conjunct1] short
    by (simp only: simp_thms)
  have hdr: "header_size \<le> 56"
    by (simp add: header_size_def)
  have s1: "unat (56 :: size_t) \<le> length sample_container"
    by (simp add: sample_container_def)
  have s2: "u32_of_bytes (take 4 sample_container) = 0xDEADBEEF"
    by code_simp
  have s3: "size_of_bytes (take 8 (drop 8 sample_container)) = 1"
    by code_simp
  have p4: "hypercomplex_decrypt_data copy_transform (Some sample_container) 56
        (Some quaternion_identity) (Some []) (Some 0) = Some (BufferTooSmall, Some [], Some 1)
      \<and> hypercomplex_decrypt_data_rc copy_transform (Some sample_container) 56
        (Some quaternion_identity) (Some []) (Some 0) = Some (- 3)"
    using invalid_data_code_shared [where T = copy_transform and c = sample_container and cl = 56
        and k' = quaternion_identity and p = "[]" and pl = 0,
        THEN conjunct2, THEN conjunct2, THEN conjunct2, THEN conjunct1] hdr s1 s2
    by (simp add: s3)
  have c: "?c = [0xEF, 0xBE, 0xAD, 0xDE, 0, 0, 0, 0, 1, 0, 0, 0, 0, 0, 0, 0,
      0, 0, 0x80, 0x3F, 0, 0, 0, 0, 0, 0, 0, 0, 0, 0, 0, 0,
      0x40, 0, 0, 0, 0, 0, 0, 0, 0x41, 0, 0, 0, 0, 0, 0, 0, 0, 0, 0, 0, 0, 0, 0, 0]"
    by (simp add: sample_container_def)
  have h1: "unat (56 :: size_t) \<le> length ?c"
    by (simp add: sample_container_def)
  have h3: "u32_of_bytes (take 4 ?c) = 0xDEADBEEF"
    unfolding c by code_simp
  have len: "size_of_bytes (take 8 (drop 8 ?c)) = 1"
    unfolding c by code_simp
  have h4: "size_of_bytes (take 8 (drop 8 ?c)) \<le> (16 :: size_t)"
    unfolding len by simp
  have h5: "unat (56 :: size_t) - 40 \<le> length (replicate 16 (0 :: byte))"
    "unat (16 :: size_t) \<le> length (replicate 16 (0 :: byte))"
    by simp_all
  have pay: "take (unat (56 :: size_t) - 40) (drop 40 ?c) = 0x41 # replicate 15 0"
    unfolding c by code_simp
  have h6: "copy_transform (take (unat (56 :: size_t) - 40) (drop 40 ?c))
      (quaternion_conjugate (quaternion_of_bytes (take 16 (drop 16 ?c))))
      = (HC_SUCCESS, 0x41 # replicate 15 0)"
    unfolding pay by (simp add: copy_transform_def)
  have h7: "length (0x41 # replicate 15 (0 :: byte)) = unat (56 :: size_t) - 40"
    by simp
  have h8: "compute_checksum ((0x41 # replicate 15 0) @ drop (length (0x41 # replicate 15 (0 :: byte)))
        (replicate 16 0)) (size_of_bytes (take 8 (drop 8 ?c)))
      \<noteq> u32_of_bytes (take 4 (drop 32 ?c))"
    unfolding c by code_simp
  have p5: "hypercomplex_decrypt_data copy_transform (Some ?c) 56
        (Some quaternion_identity) (Some (replicate 16 0)) (Some 16)
        = Some (IntegrityMismatch, Some (0x41 # replicate 15 0), Some 1)
      \<and> hypercomplex_decrypt_data_rc copy_transform (Some ?c) 56
        (Some quaternion_identity) (Some (replicate 16 0)) (Some 16) = Some (- 3)"
    using invalid_data_code_shared [where T = copy_transform and c = ?c and cl = 56
        and k' = quaternion_identity and p = "replicate 16 0" and pl = 16
        and out = "0x41 # replicate 15 0",
        THEN conjunct2, THEN conjunct2, THEN conjunct2, THEN conjunct2, THEN conjunct1]
      hdr h1 h3 h4 h5 h6 h7 h8
    by (simp add: len)
  have codes: "\<forall>block q. fst (copy_transform block q)
      \<in> {HC_SUCCESS, HC_ERROR_NULL_PTR, HC_ERROR_DIVIDE_ZERO, HC_ERROR_INVALID_DATA}"
    by (simp add: copy_transform_def)
  have ok: "hypercomplex_decrypt_data_rc copy_transform (Some sample_container) 56
      (Some quaternion_identity) (Some (replicate 16 0)) (Some 16) = Some 0"
    by code_simp
  have p6: "(0 :: int) \<in> {HC_SUCCESS, HC_ERROR_NULL_PTR, HC_ERROR_DIVIDE_ZERO, HC_ERROR_INVALID_DATA}"
    using invalid_data_code_shared [where T = copy_transform and c' = "Some sample_container" and cl' = 56
        and key'' = "Some quaternion_identity" and p' = "Some (replicate 16 0)"
        and pl' = "Some 16",
        THEN conjunct2, THEN conjunct2, THEN conjunct2, THEN conjunct2, THEN conjunct2,
        THEN conjunct2, THEN mp, OF codes, rule_format, where r = 0] ok
    by (simp only: simp_thms)
  show ?thesis
    using p1 p2 p3 p4 p5 ok p6 by (simp only: simp_thms)
qed

section \<open>Key generation\<close>

text \<open>
  C2, as stated, fails. No seed has a zero-norm draw, and \<open>quaternion_generate_key\<close> has
  no failure to report. The four components that the function computes from the seed are
  never zero: at seed 0 they are the bit patterns below (about -0.623, -0.824, -0.689 and
  -0.780), and for every seed the sum of their squares is not 0. The function returns
  \<open>void\<close>: for every seed and every behaviour of \<open>quaternion_normalize\<close> the caller gets what
  that routine left in the key location, and its return code reaches nobody.
\<close>

theorem generate_key_no_zero_norm_draw:
  "generate_key_draws 0
     = \<lparr> q_w = 0xBF1F8DA0, q_x = 0xBF5303D3, q_y = 0xBF3041B0, q_z = 0xBF47A7C8 \<rparr>
   \<and> (\<forall>seed. quaternion_norm_sq (generate_key_draws seed) \<noteq> 0)
   \<and> (\<forall>nrm k0 seed. quaternion_generate_key nrm (Some k0) seed
         = Some (snd (nrm (generate_key_draws seed))))"
proof (intro conjI allI)
  show "generate_key_draws 0
     = \<lparr> q_w = 0xBF1F8DA0, q_x = 0xBF5303D3, q_y = 0xBF3041B0, q_z = 0xBF47A7C8 \<rparr>"
    by code_simp
next
  fix seed
  have "(0::rat) < 2 powi (- 32)" by simp
  also have "\<dots> \<le> quaternion_norm_sq (generate_key_draws seed)"
    by (rule generate_key_draws_norm)
  finally show "quaternion_norm_sq (generate_key_draws seed) \<noteq> 0" by simp
next
  fix nrm k0 seed
  show "quaternion_generate_key nrm (Some k0) seed = Some (snd (nrm (generate_key_draws seed)))"
    by (simp add: quaternion_generate_key_def)
qed

text \<open>
  C2, amended. For every seed the four raw components that \<open>quaternion_generate_key\<close>
  hands to \<open>quaternion_normalize\<close> are finite and have a magnitude of at least \<open>2^-17\<close>,
  so the raw quaternion is valid and its squared norm is at least \<open>2^-32\<close>: a zero-norm
  draw, the case in which normalisation fails with DivideByZero, does not occur for any
  seed. The function returns \<open>void\<close> and drops the return code of
  \<open>quaternion_normalize\<close>; what it leaves in \<open>*key\<close> is what \<open>quaternion_normalize\<close> left
  there. Key generation is not observable as fallible at the caller's interface.
\<close>

theorem generate_key_draws_nonzero:
  "quaternion_generate_key nrm (Some k0) seed = Some (snd (nrm (generate_key_draws seed)))
   \<and> quaternion_is_valid (Some (generate_key_draws seed))
   \<and> 2 powi (- 17) \<le> \<bar>f32_value (q_w (generate_key_draws seed))\<bar>
   \<and> 2 powi (- 17) \<le> \<bar>f32_value (q_x (generate_key_draws seed))\<bar>
   \<and> 2 powi (- 17) \<le> \<bar>f32_value (q_y (generate_key_draws seed))\<bar>
   \<and> 2 powi (- 17) \<le> \<bar>f32_value (q_z (generate_key_draws seed))\<bar>
   \<and> 2 powi (- 32) \<le> quaternion_norm_sq (generate_key_draws seed)"
  using generate_key_draws_bounds [of seed] generate_key_draws_norm [of seed]
  by (simp only: quaternion_generate_key_def simp_thms option.simps if_False)

end
